theory Spec2Isabelle
  imports Complex_Main
begin

section \<open>JavaScript values shared by the katas\<close>

text \<open>
  A JavaScript string is a sequence of UTF-16 code units; \<open>length\<close>, \<open>slice\<close>,
  \<open>indexOf\<close> and \<open>===\<close> all work on code units.  A code unit is modelled by its
  number, so that the suit symbols of the poker kata (U+2660 .. U+2666) are single
  characters, as they are in the source.  \<open>js\<close> turns an ASCII literal into such a string.
\<close>

type_synonym jschar = nat
type_synonym jsstring = "jschar list"

definition js :: "string \<Rightarrow> jsstring" where
  "js s = map of_char s"

text \<open>The exceptions the modelled functions can raise.\<close>

datatype error = TypeError | UsageError

text \<open>
  \<open>Array.prototype.indexOf\<close>: the first index holding the element, \<open>-1\<close> when there is
  none.  It is also \<open>String.prototype.indexOf\<close> for a one-character argument.
\<close>

fun indexOf :: "'a list \<Rightarrow> 'a \<Rightarrow> int" where
  "indexOf [] x = -1"
| "indexOf (y # ys) x = (if y = x then 0 else (let r = indexOf ys x in if r < 0 then -1 else r + 1))"

text \<open>\<open>Array.prototype.join\<close> on an array of strings.\<close>

fun join :: "jsstring \<Rightarrow> jsstring list \<Rightarrow> jsstring" where
  "join sep [] = []"
| "join sep [x] = x"
| "join sep (x # y # ys) = x @ sep @ join sep (y # ys)"

text \<open>
  The decimal numeral of a natural number and of an integer.  \<open>digits\<close> serves the
  printing of numbers below; \<open>show_int\<close> is the numeral a specification means when it
  writes a number into a string.
\<close>

fun digits :: "nat \<Rightarrow> jsstring" where
  "digits n = (if n < 10 then [48 + n] else digits (n div 10) @ [48 + n mod 10])"

declare digits.simps [simp del]

definition show_int :: "int \<Rightarrow> jsstring" where
  "show_int i = (if i < 0 then js ''-'' @ digits (nat (- i)) else digits (nat i))"

text \<open>
  Numbers.  A JavaScript number is a double.  The katas that take integers receive doubles
  whose value is an integer, and such a number is modelled by its value, an \<open>int\<close>.
  \<open>round_double v\<close> is the double nearest to the integer \<open>v\<close>, a tie going to the even
  significand, computed with an unbounded exponent: \<open>ulp m\<close> is the spacing of the doubles
  at the magnitude \<open>m\<close> (1 below \<open>2^53\<close>, where every integer is a double).  It is the result
  of the source's \<open>+\<close> and \<open>-\<close> on integer-valued doubles wherever that result is finite; where
  the source has \<open>Infinity\<close> it is \<open>2^1024\<close> or more.  The code modelled here only compares
  such a result with a finite number, so the two agree.
\<close>

fun ulp :: "nat \<Rightarrow> nat" where
  "ulp m = (if m < 9007199254740992 then 1 else 2 * ulp (m div 2))"

declare ulp.simps [simp del]

definition round_nat :: "nat \<Rightarrow> nat" where
  "round_nat m =
     (let u = ulp m; q = m div u; r = m mod u
      in if 2 * r < u then q * u
         else if u < 2 * r then (q + 1) * u
         else if even q then q * u else (q + 1) * u)"

definition round_double :: "int \<Rightarrow> int" where
  "round_double v = (if v < 0 then - int (round_nat (nat (- v))) else int (round_nat (nat v)))"

definition js_add :: "int \<Rightarrow> int \<Rightarrow> int" where
  "js_add a b = round_double (a + b)"

definition js_sub :: "int \<Rightarrow> int \<Rightarrow> int" where
  "js_sub a b = round_double (a - b)"

text \<open>
  The safe integers (\<open>Number.isSafeInteger\<close>): those of magnitude at most \<open>2^53 - 1\<close>.
\<close>

definition safe :: "int \<Rightarrow> bool" where
  "safe i \<longleftrightarrow> \<bar>i\<bar> \<le> 9007199254740991"

text \<open>
  The string of a number in a template literal (\<open>Number::toString\<close>), for an integer-valued
  double \<open>x\<close>: among the decimals \<open>s * 10^e\<close> that denote \<open>x\<close> (that round to it) the one with
  the fewest digits \<open>s\<close>, among those the one closest to \<open>x\<close>, among those the even \<open>s\<close> (the
  choice ECMAScript recommends and the engines make); written out with its zeros when it
  has at most 21 digits, and in exponent notation otherwise.  \<open>shortest x e\<close> looks for the
  largest exponent, from \<open>e\<close> downwards, at which one of the two multiples of \<open>10^e\<close> around
  \<open>x\<close> rounds to \<open>x\<close>; fewest digits means largest exponent.
\<close>

fun shortest :: "nat \<Rightarrow> nat \<Rightarrow> nat" where
  "shortest x e =
     (if e = 0 then x
      else
        (let p = 10 ^ e; v1 = (x div p) * p; v2 = v1 + p;
             ok1 = (round_nat v1 = x); ok2 = (round_nat v2 = x)
         in if ok1 \<and> ok2 then
              (if x - v1 < v2 - x then v1
               else if v2 - x < x - v1 then v2
               else if even (x div p) then v1 else v2)
            else if ok1 then v1
            else if ok2 then v2
            else shortest x (e - 1)))"

declare shortest.simps [simp del]

definition nat_to_string :: "nat \<Rightarrow> jsstring" where
  "nat_to_string x =
     (let ds = digits (shortest x (length (digits x))); n = length ds
      in if n \<le> 21 then ds
         else (case rev (dropWhile (\<lambda>c. c = 48) (rev ds)) of
                 [] \<Rightarrow> []
               | d # rest \<Rightarrow>
                   d # (if rest = [] then [] else js ''.'' @ rest) @ js ''e+'' @ digits (n - 1)))"

definition number_to_string :: "int \<Rightarrow> jsstring" where
  "number_to_string i =
     (if i < 0 then js ''-'' @ nat_to_string (nat (- i)) else nat_to_string (nat i))"

section \<open>Range extraction (10-katas-1-tasks.js, extractRanges)\<close>

text \<open>
  The loop of \<open>extractRanges\<close>, with its variables \<open>i\<close>, \<open>start\<close>, \<open>prev\<close> and the
  array \<open>result\<close>.  The loop runs while \<open>i \<le> nums.length\<close>; the reads \<open>nums[i]\<close> are
  all behind \<open>i < nums.length\<close> (the first by the short-circuit of \<open>||\<close>).  \<open>prev + 1\<close> and
  \<open>prev - start\<close> are the arithmetic of doubles, the template literals print numbers.
\<close>

function extract_loop :: "int list \<Rightarrow> nat \<Rightarrow> int \<Rightarrow> int \<Rightarrow> jsstring list \<Rightarrow> jsstring list" where
  "extract_loop nums i start prev result =
     (if i \<le> length nums then
        (if i = length nums \<or> nums ! i \<noteq> js_add prev 1 then
           (let result' =
                  (if start = prev then result @ [number_to_string start]
                   else if js_sub prev start = 1
                   then result @ [number_to_string start @ js '','' @ number_to_string prev]
                   else result @ [number_to_string start @ js ''-'' @ number_to_string prev])
            in if i < length nums then extract_loop nums (i + 1) (nums ! i) (nums ! i) result'
               else extract_loop nums (i + 1) start prev result')
         else extract_loop nums (i + 1) start (nums ! i) result)
      else result)"
  by pat_completeness auto
termination
  by (relation "measure (\<lambda>(nums, i, start, prev, result). length nums + 1 - i)") auto

declare extract_loop.simps [simp del]

definition extractRanges :: "int list \<Rightarrow> jsstring" where
  "extractRanges nums =
     (if length nums = 0 then js ''''
      else join (js '','') (extract_loop nums 1 (nums ! 0) (nums ! 0) []))"

text \<open>
  The specification's reading of the same function, written from its words: a run is a
  maximal block \<open>a, a+1, .., b\<close> of members of the sequence; a run of three or more is
  rendered \<open>a-b\<close>, a run of two \<open>a,b\<close>, a single member alone; the pieces are joined
  by commas in ascending order.
\<close>

definition is_maximal_run :: "int set \<Rightarrow> int \<Rightarrow> int \<Rightarrow> bool" where
  "is_maximal_run S a b \<longleftrightarrow> a \<le> b \<and> (\<forall>k\<in>{a..b}. k \<in> S) \<and> a - 1 \<notin> S \<and> b + 1 \<notin> S"

definition maximal_runs :: "int list \<Rightarrow> (int \<times> int) list" where
  "maximal_runs nums =
     concat (map (\<lambda>a. map (\<lambda>b. (a, b)) (filter (is_maximal_run (set nums) a) nums)) nums)"

definition render_run :: "int \<times> int \<Rightarrow> jsstring" where
  "render_run r =
     (let a = fst r; b = snd r
      in if b - a \<ge> 2 then show_int a @ js ''-'' @ show_int b
         else if b - a = 1 then show_int a @ js '','' @ show_int b
         else show_int a)"

definition spec_extractRanges :: "int list \<Rightarrow> jsstring" where
  "spec_extractRanges nums = join (js '','') (map render_run (maximal_runs nums))"

text \<open>
  Two auxiliary functions for the proofs: the runs found by a left-to-right scan that
  carries the current run \<open>(a, b)\<close>, and the string for one run, with exact arithmetic and
  decimal numerals.
\<close>

fun runs_from :: "int \<Rightarrow> int \<Rightarrow> int list \<Rightarrow> (int \<times> int) list" where
  "runs_from a b [] = [(a, b)]"
| "runs_from a b (x # xs) = (if x = b + 1 then runs_from a x xs else (a, b) # runs_from x x xs)"

definition piece :: "int \<times> int \<Rightarrow> jsstring" where
  "piece r =
     (if fst r = snd r then show_int (fst r)
      else if snd r - fst r = 1 then show_int (fst r) @ js '','' @ show_int (snd r)
      else show_int (fst r) @ js ''-'' @ show_int (snd r))"

section \<open>Bank account digits (08-objects-tasks.js, parseBankAccount)\<close>

text \<open>The table \<open>digitPatterns\<close>, entry \<open>d\<close> being the glyph of digit \<open>d\<close>.\<close>

definition digitPatterns :: "jsstring list" where
  "digitPatterns =
     [js '' _ | ||_|'',
      js ''   |  | '',
      js '' _  _||_ '',
      js '' _  _| _|'',
      js ''   |_|  |'',
      js '' _ |_| _|'',
      js '' _ |_|_| '',
      js '' _   |  |'',
      js '' _ |_||_|'',
      js '' _ |_| _|'']"

section \<open>Compass points (10-katas-1-tasks.js, createCompassPoints)\<close>

text \<open>
  One entry of the array \<open>points\<close>.  The field \<open>abbreviation\<close> is called \<open>abbrev\<close>.
  The azimuths \<open>idx * 11.25\<close> are multiples of a quarter below 360, which the arithmetic
  of the source computes exactly; they are modelled by rationals.
\<close>

record compass_point =
  abbrev :: jsstring
  azimuth :: rat

text \<open>
  A JavaScript array that may have holes: \<open>None\<close> is a hole (reading it gives
  \<open>undefined\<close>).  \<open>array_assign\<close> is \<open>a[i] = v\<close>, which extends the array when \<open>i\<close> is
  at or beyond its length.
\<close>

definition array_assign :: "'a option list \<Rightarrow> nat \<Rightarrow> 'a \<Rightarrow> 'a option list" where
  "array_assign a i v =
     (if i < length a then a[i := Some v] else a @ replicate (i - length a) None @ [Some v])"

definition array_get :: "'a option list \<Rightarrow> nat \<Rightarrow> 'a option" where
  "array_get a i = (if i < length a then a ! i else None)"

text \<open>
  The table \<open>names\<close> and the two nested loops, \<open>i\<close> and \<open>j\<close> from 0 to 3, that assign
  \<open>points[i * 4 + j]\<close>.
\<close>

definition names :: "jsstring list list" where
  "names =
     [[js '''', js ''b'', js '''', js ''b''],
      [js ''N'', js ''N'', js ''NE'', js ''E''],
      [js ''E'', js ''N'', js ''E'', js ''E''],
      [js ''S'', js ''S'', js ''SE'', js ''E''],
      [js ''W'', js ''S'', js ''W'', js ''W'']]"

definition compass_fill :: "compass_point option list" where
  "compass_fill =
     fold (\<lambda>i points.
        fold (\<lambda>j points.
           (let idx = i * 4 + j
            in array_assign points idx
                 \<lparr>abbrev = names ! 0 ! j @ names ! (i + 1) ! j,
                  azimuth = of_nat idx * (45 / 4)\<rparr>))
          [0..<4] points)
       [0..<4] []"

text \<open>
  \<open>points[i].abbreviation = v\<close>: assigning a property of \<open>undefined\<close> raises a
  \<open>TypeError\<close>.  \<open>createCompassPoints\<close> makes three such assignments after the loops.
\<close>

definition set_abbreviation ::
  "compass_point option list \<Rightarrow> nat \<Rightarrow> jsstring \<Rightarrow> error + compass_point option list" where
  "set_abbreviation points i v =
     (case array_get points i of
        None \<Rightarrow> Inl TypeError
      | Some p \<Rightarrow> Inr (points[i := Some (p\<lparr>abbrev := v\<rparr>)]))"

definition createCompassPoints :: "error + compass_point option list" where
  "createCompassPoints =
     (case set_abbreviation compass_fill 4 (js ''E'') of
        Inl e \<Rightarrow> Inl e
      | Inr points1 \<Rightarrow>
          (case set_abbreviation points1 12 (js ''S'') of
             Inl e \<Rightarrow> Inl e
           | Inr points2 \<Rightarrow>
               (case set_abbreviation points2 20 (js ''W'') of
                  Inl e \<Rightarrow> Inl e
                | Inr points3 \<Rightarrow> Inr points3)))"

section \<open>Poker hands (08-objects-tasks.js, getPokerHandRank)\<close>

text \<open>
  The enumeration \<open>PokerRank\<close> (the source numbers its members from 8 down to 0).
\<close>

datatype PokerRank =
  StraightFlush | FourOfKind | FullHouse | Flush | Straight | ThreeOfKind | TwoPairs | OnePair
  | HighCard

text \<open>\<open>card.slice(0, -1)\<close> and \<open>card.slice(-1)\<close>.\<close>

definition card_rank :: "jsstring \<Rightarrow> jsstring" where
  "card_rank c = take (length c - 1) c"

definition card_suit :: "jsstring \<Rightarrow> jsstring" where
  "card_suit c = drop (length c - 1) c"

text \<open>
  \<open>String.prototype.indexOf\<close> with a string argument: the first position at which the
  argument occurs as a substring, \<open>-1\<close> when it does not occur.
\<close>

fun str_indexOf :: "jsstring \<Rightarrow> jsstring \<Rightarrow> int" where
  "str_indexOf [] r = (if r = [] then 0 else -1)"
| "str_indexOf (c # cs) r =
     (if take (length r) (c # cs) = r then 0
      else (let k = str_indexOf cs r in if k < 0 then -1 else k + 1))"

text \<open>
  \<open>parseInt\<close> on a string that begins with neither white space, a sign nor \<open>0x\<close>: the
  number written by the longest prefix of decimal digits, \<open>NaN\<close> (here \<open>None\<close>) when that
  prefix is empty.  The source applies it only where \<open>indexOf\<close> returned \<open>0\<close>, that is to a
  prefix of \<open>23456789TJQKA\<close>.
\<close>

definition is_digit :: "jschar \<Rightarrow> bool" where
  "is_digit c \<longleftrightarrow> 48 \<le> c \<and> c \<le> 57"

definition parseInt :: "jsstring \<Rightarrow> int option" where
  "parseInt r =
     (let ds = takeWhile is_digit r
      in if ds = [] then None else Some (foldl (\<lambda>n c. 10 * n + (int c - 48)) 0 ds))"

text \<open>
  The value of one rank: \<open>'23456789TJQKA'.indexOf(r) || (r === 'A' ? 13 : parseInt(r) - 1)\<close>.
  The right operand of \<open>||\<close> is evaluated exactly when \<open>indexOf\<close> returns \<open>0\<close>.
\<close>

definition rank_value :: "jsstring \<Rightarrow> int option" where
  "rank_value r =
     (let k = str_indexOf (js ''23456789TJQKA'') r
      in if k \<noteq> 0 then Some k
         else if r = js ''A'' then Some 13
         else map_option (\<lambda>n. n - 1) (parseInt r))"

text \<open>
  \<open>rankCount\<close>: the object that counts the occurrences of each rank, as an association list.
  \<open>Object.values\<close> lists integer-like keys first; the source uses the counts only through
  \<open>Math.max\<close>, \<open>includes\<close> and the length of a \<open>filter\<close>, none of which depends on the order.
\<close>

fun count_rank :: "(jsstring \<times> nat) list \<Rightarrow> jsstring \<Rightarrow> (jsstring \<times> nat) list" where
  "count_rank [] r = [(r, 1)]"
| "count_rank ((k, n) # rest) r = (if k = r then (k, n + 1) # rest else (k, n) # count_rank rest r)"

text \<open>\<open>Math.max(...counts)\<close>; \<open>None\<close> stands for the \<open>-Infinity\<close> of an empty argument list.\<close>

definition math_max :: "nat list \<Rightarrow> nat option" where
  "math_max counts = (case counts of [] \<Rightarrow> None | c # cs \<Rightarrow> Some (fold max cs c))"

text \<open>
  \<open>values.sort((a, b) => a - b)\<close>.  Without a \<open>NaN\<close> the comparator is consistent and the
  result is the ascending order.  With a \<open>NaN\<close> among the values the comparator is not
  consistent and the order of the result is left to the implementation; the model leaves
  such an array as it is, and \<open>isStraight_NaN\<close> below shows that the order does not matter
  to the function.
\<close>

definition sort_values :: "int option list \<Rightarrow> int option list" where
  "sort_values vs = (if None \<in> set vs then vs else map Some (sort (map the vs)))"

text \<open>
  \<open>isStraight\<close>, on values that may be \<open>NaN\<close>: \<open>v === values[i - 1] + 1\<close> is false when
  either side is \<open>NaN\<close>, and reading beyond the end gives \<open>undefined\<close>, equal to no number.
\<close>

definition isStraight :: "int option list \<Rightarrow> bool" where
  "isStraight values \<longleftrightarrow>
     list_all (\<lambda>i. i = 0 \<or> (values ! i \<noteq> None
                            \<and> values ! i = map_option (\<lambda>v. v + 1) (values ! (i - 1))))
       [0..<length values]
     \<or> ((0 < length values \<and> values ! 0 = Some 0)
        \<and> list_all (\<lambda>i. tl values ! i = Some (int i + 1)) [0..<length (tl values)]
        \<and> (4 < length values \<and> values ! 4 = Some 12))"

definition isFlush :: "jsstring list \<Rightarrow> bool" where
  "isFlush suits \<longleftrightarrow> (case suits of [] \<Rightarrow> True | s0 # _ \<Rightarrow> list_all (\<lambda>suit. suit = s0) suits)"

text \<open>The function itself.\<close>

definition getPokerHandRank :: "jsstring list \<Rightarrow> PokerRank" where
  "getPokerHandRank hand =
     (let ranks = map card_rank hand;
          suits = map card_suit hand;
          rankCount = foldl count_rank [] ranks;
          values = sort_values (map rank_value ranks);
          counts = map snd rankCount;
          maxCount = math_max counts
      in if isFlush suits \<and> isStraight values then StraightFlush
         else if maxCount = Some 4 then FourOfKind
         else if maxCount = Some 3 \<and> 2 \<in> set counts then FullHouse
         else if isFlush suits then Flush
         else if isStraight values then Straight
         else if maxCount = Some 3 then ThreeOfKind
         else if length (filter (\<lambda>c. c = 2) counts) = 2 then TwoPairs
         else if maxCount = Some 2 then OnePair
         else HighCard)"

text \<open>
  The suit symbols, and a card written as its rank followed by its suit.
\<close>

definition spade :: jschar where "spade = 9824"
definition club :: jschar where "club = 9827"
definition heart :: jschar where "heart = 9829"
definition diamond :: jschar where "diamond = 9830"

definition mk_card :: "string \<Rightarrow> jschar \<Rightarrow> jsstring" where
  "mk_card r s = js r @ [s]"

text \<open>
  The two hands of the documentation that are straight flushes.
\<close>

definition ace_low_hand :: "jsstring list" where
  "ace_low_hand = [mk_card ''A'' spade, mk_card ''4'' spade, mk_card ''3'' spade, mk_card ''5'' spade, mk_card ''2'' spade]"

definition hearts_hand :: "jsstring list" where
  "hearts_hand = [mk_card ''4'' heart, mk_card ''5'' heart, mk_card ''6'' heart, mk_card ''7'' heart, mk_card ''8'' heart]"

text \<open>A hand whose first card is a suit alone, with no rank.\<close>

definition no_rank_hand :: "jsstring list" where
  "no_rank_hand = [[spade], mk_card ''4'' spade, mk_card ''3'' spade, mk_card ''5'' spade, mk_card ''2'' spade]"

section \<open>CSS selector builder (08-objects-tasks.js, CssSelector)\<close>

text \<open>
  The object \<open>parts\<close> of a \<open>CssSelector\<close>: \<open>null\<close> is \<open>None\<close>.  The fields \<open>element\<close>, \<open>id\<close>
  and \<open>pseudoElement\<close> carry the suffix \<open>_part\<close>, the methods \<open>id\<close> and \<open>class\<close> the suffix
  \<open>_sel\<close>.  Each method returns \<open>this\<close> or throws; values are strings.
\<close>

record CssSelector =
  element_part :: "jsstring option"
  id_part :: "jsstring option"
  classes :: "jsstring list"
  attrs :: "jsstring list"
  pseudoClasses :: "jsstring list"
  pseudoElement_part :: "jsstring option"

definition new_CssSelector :: CssSelector where
  "new_CssSelector =
     \<lparr>element_part = None, id_part = None, classes = [], attrs = [], pseudoClasses = [],
      pseudoElement_part = None\<rparr>"

text \<open>
  The guards are \<open>if (this.parts.element)\<close> and its like: a truthiness test, which a stored
  string passes exactly when it is not empty.
\<close>

definition truthy :: "jsstring option \<Rightarrow> bool" where
  "truthy v \<longleftrightarrow> (case v of None \<Rightarrow> False | Some s \<Rightarrow> s \<noteq> [])"

definition element :: "jsstring \<Rightarrow> CssSelector \<Rightarrow> error + CssSelector" where
  "element v this =
     (if truthy (element_part this) then Inl UsageError
      else Inr (this\<lparr>element_part := Some v\<rparr>))"

definition id_sel :: "jsstring \<Rightarrow> CssSelector \<Rightarrow> error + CssSelector" where
  "id_sel v this =
     (if truthy (id_part this) then Inl UsageError
      else Inr (this\<lparr>id_part := Some (js ''#'' @ v)\<rparr>))"

definition class_sel :: "jsstring \<Rightarrow> CssSelector \<Rightarrow> error + CssSelector" where
  "class_sel v this = Inr (this\<lparr>classes := classes this @ [js ''.'' @ v]\<rparr>)"

definition attr :: "jsstring \<Rightarrow> CssSelector \<Rightarrow> error + CssSelector" where
  "attr v this = Inr (this\<lparr>attrs := attrs this @ [js ''['' @ v @ js '']'']\<rparr>)"

definition pseudoClass :: "jsstring \<Rightarrow> CssSelector \<Rightarrow> error + CssSelector" where
  "pseudoClass v this = Inr (this\<lparr>pseudoClasses := pseudoClasses this @ [js '':'' @ v]\<rparr>)"

definition pseudoElement :: "jsstring \<Rightarrow> CssSelector \<Rightarrow> error + CssSelector" where
  "pseudoElement v this =
     (if truthy (pseudoElement_part this) then Inl UsageError
      else Inr (this\<lparr>pseudoElement_part := Some (js ''::'' @ v)\<rparr>))"

text \<open>
  \<open>stringify\<close>: the parts in the order of \<open>this.order\<close>, a missing part giving the empty string.
\<close>

definition or_empty :: "jsstring option \<Rightarrow> jsstring" where
  "or_empty v = (case v of None \<Rightarrow> [] | Some s \<Rightarrow> s)"

definition stringify :: "CssSelector \<Rightarrow> jsstring" where
  "stringify this =
     or_empty (element_part this) @ or_empty (id_part this) @ concat (classes this)
     @ concat (attrs this) @ concat (pseudoClasses this) @ or_empty (pseudoElement_part this)"

text \<open>Chaining: \<open>a.m(v)\<close> on the result of an earlier call; an exception propagates.\<close>

definition chain :: "error + CssSelector \<Rightarrow> (CssSelector \<Rightarrow> error + CssSelector) \<Rightarrow> error + CssSelector" where
  "chain r m = (case r of Inl e \<Rightarrow> Inl e | Inr s \<Rightarrow> m s)"

section \<open>Word wrap (08-objects-tasks.js, wrapText)\<close>

text \<open>
  \<open>text.split(' ')\<close>: the pieces between single spaces; the empty string gives one empty
  piece, two adjacent spaces an empty piece between them.
\<close>

fun split_sp :: "jsstring \<Rightarrow> jsstring list" where
  "split_sp [] = [[]]"
| "split_sp (c # cs) =
     (if c = 32 then [] # split_sp cs
      else (case split_sp cs of [] \<Rightarrow> [[c]] | w # ws \<Rightarrow> (c # w) # ws))"

text \<open>
  One iteration of the loop over the words.  The state is the variable \<open>currentLine\<close>
  together with the lines yielded so far; \<open>columns\<close> is an integer.  A string is truthy
  when it is not empty.
\<close>

definition wrap_step ::
  "int \<Rightarrow> jsstring \<times> jsstring list \<Rightarrow> jsstring \<Rightarrow> jsstring \<times> jsstring list" where
  "wrap_step columns st word =
     (let currentLine = fst st; yielded = snd st
      in if int (length currentLine) + int (length word) + (if currentLine \<noteq> [] then 1 else 0)
            \<le> columns
         then (currentLine @ (if currentLine \<noteq> [] then js '' '' else js []) @ word, yielded)
         else (if int (length word) \<le> columns then word else js [],
               if currentLine \<noteq> [] then yielded @ [currentLine] else yielded))"

text \<open>
  The generator, as the list of the lines it yields: the lines of the loop followed by the
  last \<open>currentLine\<close> when that is not empty.
\<close>

definition lines_of :: "jsstring \<times> jsstring list \<Rightarrow> jsstring list" where
  "lines_of st = (if fst st \<noteq> [] then snd st @ [fst st] else snd st)"

definition wrapText :: "jsstring \<Rightarrow> int \<Rightarrow> jsstring list" where
  "wrapText text columns = lines_of (foldl (wrap_step columns) (js [], []) (split_sp text))"

text \<open>
  For the statements: a word fits when it is not empty and no longer than the limit;
  \<open>words_of\<close> lists the non-empty words of a list of lines, in order; \<open>line_inv\<close> is the
  invariant of the loop on line lengths.
\<close>

definition fits :: "int \<Rightarrow> jsstring \<Rightarrow> bool" where
  "fits columns word \<longleftrightarrow> word \<noteq> [] \<and> int (length word) \<le> columns"

definition words_of :: "jsstring list \<Rightarrow> jsstring list" where
  "words_of ls = filter (\<lambda>w. w \<noteq> []) (concat (map split_sp ls))"

definition line_inv :: "int \<Rightarrow> jsstring \<times> jsstring list \<Rightarrow> bool" where
  "line_inv columns st \<longleftrightarrow>
     (fst st = [] \<or> int (length (fst st)) \<le> columns)
     \<and> (\<forall>l\<in>set (snd st). l \<noteq> [] \<and> int (length l) \<le> columns)"

section \<open>Merging sorted sequences (07-yield-tasks.js, mergeSortedSequences)\<close>

text \<open>
  An iterable is a lazy list, finite or infinite.  \<open>iter_next\<close> is \<open>iter.next()\<close>: the
  result record (\<open>None\<close> for \<open>done\<close>) and the advanced iterator.
\<close>

codatatype 'a llist = LNil | LCons 'a "'a llist"

definition iter_next :: "'a llist \<Rightarrow> 'a option \<times> 'a llist" where
  "iter_next it = (case it of LNil \<Rightarrow> (None, LNil) | LCons v rest \<Rightarrow> (Some v, rest))"

text \<open>
  The local variables of the generator.  \<open>mergeSortedSequences\<close> is the state after the
  two initial calls of \<open>next\<close>; \<open>merge_next\<close> runs the generator up to its next \<open>yield\<close>
  and returns the yielded value with the new state, or \<open>None\<close> when the loop has ended.
  Every iteration of the \<open>while\<close> loop yields, so \<open>merge_next\<close> is not recursive.
\<close>

record 'a merge_state =
  val1 :: "'a option"
  iter1 :: "'a llist"
  val2 :: "'a option"
  iter2 :: "'a llist"

definition mergeSortedSequences :: "'a llist \<Rightarrow> 'a llist \<Rightarrow> 'a merge_state" where
  "mergeSortedSequences source1 source2 =
     (let (v1, i1) = iter_next source1; (v2, i2) = iter_next source2
      in \<lparr>val1 = v1, iter1 = i1, val2 = v2, iter2 = i2\<rparr>)"

definition advance1 :: "'a merge_state \<Rightarrow> 'a merge_state" where
  "advance1 s = (let (v, i) = iter_next (iter1 s) in s\<lparr>val1 := v, iter1 := i\<rparr>)"

definition advance2 :: "'a merge_state \<Rightarrow> 'a merge_state" where
  "advance2 s = (let (v, i) = iter_next (iter2 s) in s\<lparr>val2 := v, iter2 := i\<rparr>)"

definition merge_next :: "('a::linorder) merge_state \<Rightarrow> ('a \<times> 'a merge_state) option" where
  "merge_next s =
     (case (val1 s, val2 s) of
        (None, None) \<Rightarrow> None
      | (None, Some v2) \<Rightarrow> Some (v2, advance2 s)
      | (Some v1, None) \<Rightarrow> Some (v1, advance1 s)
      | (Some v1, Some v2) \<Rightarrow>
          if v1 \<le> v2 then Some (v1, advance1 s) else Some (v2, advance2 s))"

fun take_merged :: "nat \<Rightarrow> ('a::linorder) merge_state \<Rightarrow> 'a list" where
  "take_merged 0 s = []"
| "take_merged (Suc n) s =
     (case merge_next s of None \<Rightarrow> [] | Some (v, s') \<Rightarrow> v # take_merged n s')"

text \<open>
  Consuming the first \<open>n\<close> elements of the merged sequence, and of a source; a sequence is
  ascending when each of its finite prefixes is sorted.  \<open>from_by a d\<close> is the infinite
  sequence \<open>a, a + d, a + 2 d, ..\<close>.
\<close>

fun ltake :: "nat \<Rightarrow> 'a llist \<Rightarrow> 'a list" where
  "ltake 0 xs = []"
| "ltake (Suc n) xs = (case xs of LNil \<Rightarrow> [] | LCons x xs' \<Rightarrow> x # ltake n xs')"

definition ascending :: "('a::linorder) llist \<Rightarrow> bool" where
  "ascending xs \<longleftrightarrow> (\<forall>n. sorted (ltake n xs))"

primcorec from_by :: "int \<Rightarrow> int \<Rightarrow> int llist" where
  "from_by a d = LCons a (from_by (a + d) d)"

text \<open>
  For the proofs: what is still to come from each source, the value already fetched
  included.
\<close>

definition pending :: "'a option \<Rightarrow> 'a llist \<Rightarrow> 'a llist" where
  "pending v it = (case v of None \<Rightarrow> LNil | Some x \<Rightarrow> LCons x it)"

definition pending1 :: "'a merge_state \<Rightarrow> 'a llist" where
  "pending1 s = pending (val1 s) (iter1 s)"

definition pending2 :: "'a merge_state \<Rightarrow> 'a llist" where
  "pending2 s = pending (val2 s) (iter2 s)"

section \<open>Snaking puzzle (findStringInSnakingPuzzle, with the stock and URL katas)\<close>

text \<open>
  The two arrays the function works on: the input \<open>puzzle\<close>, an array of strings, and the
  scratch grid \<open>visited\<close> that the function allocates.  They are kept in one record so
  that a statement can say which of them a call changes.
\<close>

record heap =
  puzzle :: "jsstring list"
  visited :: "bool list list"

text \<open>
  The reads and writes of \<open>dfs\<close>.  \<open>puzzle[row][col]\<close> and \<open>searchStr[index]\<close> give
  \<open>undefined\<close> (here \<open>None\<close>) beyond the end of the string.  \<open>visited\<close> has \<open>rows\<close> rows of
  \<open>cols\<close> entries and is read and written only behind the bounds test, so its accesses
  are in range.
\<close>

definition char_at :: "jsstring list \<Rightarrow> int \<Rightarrow> int \<Rightarrow> jschar option" where
  "char_at p row col =
     (if nat col < length (p ! nat row) then Some (p ! nat row ! nat col) else None)"

definition str_at :: "jsstring \<Rightarrow> nat \<Rightarrow> jschar option" where
  "str_at s index = (if index < length s then Some (s ! index) else None)"

definition visited_at :: "bool list list \<Rightarrow> int \<Rightarrow> int \<Rightarrow> bool" where
  "visited_at v row col = v ! nat row ! nat col"

definition mark :: "bool list list \<Rightarrow> int \<Rightarrow> int \<Rightarrow> bool \<Rightarrow> bool list list" where
  "mark v row col b = v[nat row := (v ! nat row)[nat col := b]]"

definition directions :: "(int \<times> int) list" where
  "directions = [(0, 1), (1, 0), (0, -1), (-1, 0)]"

text \<open>
  The inner function \<open>dfs\<close>, with the state passed in and returned, and its loop over the
  four directions (\<open>dfs_dirs\<close>).  \<open>rows\<close>, \<open>cols\<close> and \<open>searchStr\<close> are the constants of the
  enclosing call.  The branch \<open>length searchStr < index\<close> is not in the source: \<open>dfs\<close> is
  entered with index \<open>0\<close> and calls itself with \<open>index + 1\<close> only past the test
  \<open>index === searchStr.length\<close>, so no call has an index beyond the length, and the branch
  makes the recursion well-founded on the index alone (see \<open>dfs_source_equation\<close> below).
\<close>

function dfs :: "jsstring \<Rightarrow> int \<Rightarrow> int \<Rightarrow> heap \<Rightarrow> int \<Rightarrow> int \<Rightarrow> nat \<Rightarrow> bool \<times> heap"
  and dfs_dirs ::
    "jsstring \<Rightarrow> int \<Rightarrow> int \<Rightarrow> heap \<Rightarrow> int \<Rightarrow> int \<Rightarrow> nat \<Rightarrow> (int \<times> int) list \<Rightarrow> bool \<times> heap"
where
  "dfs searchStr rows cols h row col index =
     (if index = length searchStr then (True, h)
      else if row < 0 \<or> row \<ge> rows \<or> col < 0 \<or> col \<ge> cols \<or> visited_at (visited h) row col
           then (False, h)
      else if char_at (puzzle h) row col \<noteq> str_at searchStr index then (False, h)
      else if length searchStr < index then (False, h)
      else
        (let r = dfs_dirs searchStr rows cols (h\<lparr>visited := mark (visited h) row col True\<rparr>)
                   row col index directions
         in if fst r then (True, snd r)
            else (False, (snd r)\<lparr>visited := mark (visited (snd r)) row col False\<rparr>)))"
| "dfs_dirs searchStr rows cols h row col index [] = (False, h)"
| "dfs_dirs searchStr rows cols h row col index (d # ds) =
     (let r = dfs searchStr rows cols h (row + fst d) (col + snd d) (index + 1)
      in if fst r then (True, snd r)
         else dfs_dirs searchStr rows cols (snd r) row col index ds)"
  by pat_completeness auto
termination
  by (relation "inv_image (less_than <*lex*> less_than)
        (\<lambda>x. case x of
           Inl (s, rows, cols, h, row, col, index) \<Rightarrow> (2 * (length s + 1 - index), 0)
         | Inr (s, rows, cols, h, row, col, index, ds) \<Rightarrow> (2 * (length s - index) + 1, length ds))")
     auto

declare dfs.simps [simp del]

text \<open>
  The function itself: \<open>puzzle[0].length\<close> raises a \<open>TypeError\<close> on an empty puzzle;
  otherwise \<open>visited\<close> is allocated and \<open>dfs\<close> is tried from every cell in row order
  (\<open>scan\<close>).  The result is paired with the final state of the two arrays.
\<close>

fun scan :: "jsstring \<Rightarrow> int \<Rightarrow> int \<Rightarrow> heap \<Rightarrow> (int \<times> int) list \<Rightarrow> bool \<times> heap" where
  "scan searchStr rows cols h [] = (False, h)"
| "scan searchStr rows cols h (c # cells) =
     (let r = dfs searchStr rows cols h (fst c) (snd c) 0
      in if fst r then (True, snd r) else scan searchStr rows cols (snd r) cells)"

definition start_cells :: "nat \<Rightarrow> nat \<Rightarrow> (int \<times> int) list" where
  "start_cells rows cols = concat (map (\<lambda>i. map (\<lambda>j. (int i, int j)) [0..<cols]) [0..<rows])"

definition findStringInSnakingPuzzle :: "jsstring list \<Rightarrow> jsstring \<Rightarrow> error + bool \<times> heap" where
  "findStringInSnakingPuzzle p searchStr =
     (case p of
        [] \<Rightarrow> Inl TypeError
      | row0 # _ \<Rightarrow>
          (let rows = length p; cols = length row0;
               h = \<lparr>puzzle = p, visited = replicate rows (replicate cols False)\<rparr>
           in Inr (scan searchStr (int rows) (int cols) h (start_cells rows cols))))"

text \<open>A two by two puzzle, for the examples.\<close>

definition small_heap :: heap where
  "small_heap = \<lparr>puzzle = [js ''AB'', js ''CD''], visited = [[False, False], [False, False]]\<rparr>"

section \<open>URL shortener (UrlShortener, same file as the snaking puzzle)\<close>

text \<open>
  The alphabet \<open>urlAllowedChars\<close>, the concatenation of three literals, and \<open>base\<close>, its
  length.  The numbers of \<open>encode\<close> and \<open>decode\<close> are \<open>BigInt\<close>s, modelled by \<open>int\<close>.
\<close>

definition urlAllowedChars :: jsstring where
  "urlAllowedChars =
     js ''ABCDEFGHIJKLMNOPQRSTUVWXYZ'' @ js ''abcdefghijklmnopqrstuvwxyz''
     @ js (''0123456789-_.~!*'' @ [CHR 0x27] @ ''();:@&=+$,/?#[]'')"

definition base :: int where
  "base = int (length urlAllowedChars)"

text \<open>
  The first loop of both methods: \<open>num = num * base + indexOf(url[i])\<close> over the
  characters; a character outside the alphabet has index \<open>-1\<close>.
\<close>

definition to_num :: "jsstring \<Rightarrow> int" where
  "to_num url = foldl (\<lambda>num c. num * base + indexOf urlAllowedChars c) 0 url"

text \<open>
  The second loop of both methods, \<open>while (num > 0)\<close>, which puts the character of
  \<open>num % base\<close> in front of the string built so far and divides \<open>num\<close> by \<open>base\<close>.
  Inside the loop \<open>num\<close> is positive, where the truncating \<open>/\<close> and \<open>%\<close> of \<open>BigInt\<close>
  agree with \<open>div\<close> and \<open>mod\<close>.
\<close>

function render :: "int \<Rightarrow> jsstring \<Rightarrow> jsstring" where
  "render num short =
     (if num > 0 then render (num div base) (urlAllowedChars ! nat (num mod base) # short)
      else short)"
  by pat_completeness auto
termination
  by (relation "measure (\<lambda>(num, short). nat num)")
    (auto simp: base_def urlAllowedChars_def js_def)

declare render.simps [simp del]

text \<open>\<open>encode\<close> returns \<open>short || this.urlAllowedChars[0]\<close>, \<open>decode\<close> the string as built.\<close>

definition encode :: "jsstring \<Rightarrow> jsstring" where
  "encode url = (let short = render (to_num url) [] in if short \<noteq> [] then short else [urlAllowedChars ! 0])"

definition decode :: "jsstring \<Rightarrow> jsstring" where
  "decode code = render (to_num code) []"

section \<open>Results\<close>

subsection \<open>Range extraction\<close>

text \<open>
  On the safe integers the arithmetic of doubles is exact and a number prints as its
  decimal numeral.
\<close>

lemma ulp_big:
  "9007199254740992 \<le> m \<Longrightarrow> 2 \<le> ulp m \<and> 4503599627370496 \<le> m div ulp m"
proof (induction m rule: ulp.induct)
  case (1 m)
  show ?case
  proof (cases "m div 2 < 9007199254740992")
    case True
    then have "ulp (m div 2) = 1" by (subst ulp.simps) simp
    with 1(2) have u: "ulp m = 2" by (subst ulp.simps) simp
    from 1(2) have "4503599627370496 \<le> m div 2" by simp
    with u show ?thesis by simp
  next
    case False
    with 1 have IH: "2 \<le> ulp (m div 2)" "4503599627370496 \<le> m div 2 div ulp (m div 2)"
      by simp_all
    from 1(2) have u: "ulp m = 2 * ulp (m div 2)" by (subst ulp.simps) simp
    have "m div ulp m = m div 2 div ulp (m div 2)"
      by (simp add: u div_mult2_eq)
    with IH u show ?thesis by simp
  qed
qed

lemma round_nat_small: "m < 9007199254740992 \<Longrightarrow> round_nat m = m"
proof -
  assume "m < 9007199254740992"
  then have "ulp m = 1" by (subst ulp.simps) simp
  then show ?thesis by (simp add: round_nat_def)
qed

lemma round_nat_big:
  assumes "9007199254740992 \<le> m"
  shows "9007199254740992 \<le> round_nat m"
proof -
  from ulp_big[OF assms] have u: "2 \<le> ulp m" and q: "4503599627370496 \<le> m div ulp m"
    by simp_all
  from q u have "4503599627370496 * 2 \<le> (m div ulp m) * ulp m"
    by (rule mult_le_mono)
  then have lo: "9007199254740992 \<le> (m div ulp m) * ulp m" by simp
  have "(m div ulp m) * ulp m \<le> (m div ulp m + 1) * ulp m" by simp
  with lo show ?thesis by (auto simp: round_nat_def Let_def)
qed

lemma round_nat_inv: "x < 9007199254740992 \<Longrightarrow> round_nat v = x \<Longrightarrow> v = x"
  using round_nat_small[of v] round_nat_big[of v] by (cases "v < 9007199254740992") auto

lemma shortest_0: "shortest x 0 = x"
  by (simp add: shortest.simps)

lemma shortest_safe: "x < 9007199254740992 \<Longrightarrow> shortest x e = x"
proof (induction e)
  case 0
  show ?case by (simp add: shortest_0)
next
  case (Suc e)
  let ?p = "10 ^ Suc e :: nat"
  let ?v1 = "(x div ?p) * ?p"
  have gt: "x < ?v1 + ?p"
  proof -
    have "x = ?v1 + x mod ?p" by (rule div_mult_mod_eq[symmetric])
    moreover have "x mod ?p < ?p" by simp
    ultimately show ?thesis by linarith
  qed
  then have no2: "round_nat (?v1 + ?p) \<noteq> x"
    using round_nat_inv[OF Suc.prems, of "?v1 + ?p"] by auto
  show ?case
  proof (cases "round_nat ?v1 = x")
    case True
    then have "?v1 = x" using round_nat_inv[OF Suc.prems] by blast
    with True no2 show ?thesis by (subst shortest.simps) (simp add: Let_def)
  next
    case False
    with no2 have "shortest x (Suc e) = shortest x e"
      by (subst shortest.simps) (simp add: Let_def)
    with Suc show ?thesis by simp
  qed
qed

lemma digits_length: "0 < k \<Longrightarrow> x < 10 ^ k \<Longrightarrow> length (digits x) \<le> k"
proof (induction x arbitrary: k rule: digits.induct)
  case (1 n)
  show ?case
  proof (cases "n < 10")
    case True
    with 1(2) show ?thesis by (subst digits.simps) simp
  next
    case False
    have k: "1 < k" using 1(2,3) False by (cases "k = 1") auto
    then obtain j where j: "k = Suc j" "0 < j" by (cases k) auto
    with 1(3) have "n div 10 < 10 ^ j" by (simp add: less_mult_imp_div_less mult.commute)
    with 1(1)[OF False j(2)] have "length (digits (n div 10)) \<le> j" by simp
    with False j show ?thesis by (subst digits.simps) simp
  qed
qed

lemma nat_to_string_safe: "x < 9007199254740992 \<Longrightarrow> nat_to_string x = digits x"
proof -
  assume x: "x < 9007199254740992"
  then have "x < 10 ^ 16" by simp
  then have "length (digits x) \<le> 16" by (intro digits_length) simp_all
  with x show ?thesis by (simp add: nat_to_string_def shortest_safe)
qed

lemma number_to_string_safe: "safe i \<Longrightarrow> number_to_string i = show_int i"
  by (simp add: number_to_string_def show_int_def safe_def nat_to_string_safe)

lemma round_double_small: "\<bar>v\<bar> < 9007199254740992 \<Longrightarrow> round_double v = v"
  by (simp add: round_double_def round_nat_small)

lemma round_double_pow53: "round_double 9007199254740992 = 9007199254740992"
  by (simp add: round_double_def round_nat_def ulp.simps Let_def)

lemma round_double_inv:
  assumes "\<bar>x\<bar> < 9007199254740992" and "round_double v = x"
  shows "v = x"
proof (cases "v < 0")
  case True
  with assms(2) have e: "int (round_nat (nat (- v))) = - x" by (simp add: round_double_def)
  then have "round_nat (nat (- v)) = nat (- x)" by simp
  moreover have "nat (- x) < 9007199254740992" using assms(1) by simp
  ultimately have "nat (- v) = nat (- x)" by (rule round_nat_inv[rotated])
  moreover from e have "0 \<le> - x" by linarith
  ultimately show ?thesis using True by simp
next
  case False
  with assms(2) have e: "int (round_nat (nat v)) = x" by (simp add: round_double_def)
  then have "round_nat (nat v) = nat x" by simp
  moreover have "nat x < 9007199254740992" using assms(1) by simp
  ultimately have "nat v = nat x" by (rule round_nat_inv[rotated])
  moreover from e have "0 \<le> x" by linarith
  ultimately show ?thesis using False by simp
qed

lemma js_add_safe: "safe p \<Longrightarrow> js_add p 1 = p + 1"
proof -
  assume "safe p"
  then have "\<bar>p + 1\<bar> < 9007199254740992 \<or> p + 1 = 9007199254740992"
    by (auto simp: safe_def)
  then show ?thesis
    using round_double_small[of "p + 1"] round_double_pow53 by (auto simp: js_add_def)
qed

lemma js_sub_one: "js_sub a b = 1 \<longleftrightarrow> a - b = 1"
  using round_double_inv[of 1 "a - b"] round_double_small[of 1] by (auto simp: js_sub_def)

text \<open>
  Beyond the safe integers: \<open>2^53 + 2\<close> plus one is \<open>2^53 + 4\<close>, and from \<open>10^21\<close> a number
  prints in exponent notation.
\<close>

lemma shortest_skip:
  "e \<noteq> 0 \<Longrightarrow> round_nat ((x div 10 ^ e) * 10 ^ e) \<noteq> x \<Longrightarrow>
   round_nat ((x div 10 ^ e) * 10 ^ e + 10 ^ e) \<noteq> x \<Longrightarrow> shortest x e = shortest x (e - 1)"
  by (subst shortest.simps) (simp add: Let_def)

lemma shortest_lo:
  "e \<noteq> 0 \<Longrightarrow> round_nat ((x div 10 ^ e) * 10 ^ e) = x \<Longrightarrow>
   round_nat ((x div 10 ^ e) * 10 ^ e + 10 ^ e) \<noteq> x \<Longrightarrow> shortest x e = (x div 10 ^ e) * 10 ^ e"
  by (subst shortest.simps) (simp add: Let_def)

lemma shortest_hi:
  "e \<noteq> 0 \<Longrightarrow> round_nat ((x div 10 ^ e) * 10 ^ e) \<noteq> x \<Longrightarrow>
   round_nat ((x div 10 ^ e) * 10 ^ e + 10 ^ e) = x \<Longrightarrow>
   shortest x e = (x div 10 ^ e) * 10 ^ e + 10 ^ e"
  by (subst shortest.simps) (simp add: Let_def)

lemmas number_eval = number_to_string_def nat_to_string_def shortest_0 shortest_skip shortest_lo
  shortest_hi round_nat_def ulp.simps digits.simps Let_def js_def

lemma js_add_beyond_safe: "js_add 9007199254740994 1 = 9007199254740996"
  by (simp add: js_add_def round_double_def round_nat_def ulp.simps Let_def)

lemma number_to_string_examples:
  "number_to_string 9007199254740994 = js ''9007199254740994''"
  "number_to_string 9007199254740996 = js ''9007199254740996''"
  "number_to_string 1000000000000000000000 = js ''1e+21''"
  "number_to_string 1152921504606846976 = js ''1152921504606847000''"
  by (simp_all add: number_eval)

lemma extract_loop_runs:
  "i \<le> length nums \<Longrightarrow> \<forall>n\<in>set nums. safe n \<Longrightarrow> safe start \<Longrightarrow> safe prev \<Longrightarrow>
   extract_loop nums i start prev result = result @ map piece (runs_from start prev (drop i nums))"
proof (induction nums i start prev result rule: extract_loop.induct)
  case (1 nums i start prev result)
  note str = number_to_string_safe[OF \<open>safe start\<close>] number_to_string_safe[OF \<open>safe prev\<close>]
  note add = js_add_safe[OF \<open>safe prev\<close>]
  show ?case
  proof (cases "i = length nums")
    case True
    have stop: "extract_loop nums (Suc (length nums)) s p r = r" for s p r
      by (subst extract_loop.simps) simp
    show ?thesis
      using True
      by (subst extract_loop.simps) (simp add: stop piece_def Let_def str js_sub_one)
  next
    case False
    with 1(4) have lt: "i < length nums" by simp
    then have dr: "drop i nums = nums ! i # drop (Suc i) nums"
      by (simp add: Cons_nth_drop_Suc)
    from lt 1(5) have sn: "safe (nums ! i)" by simp
    show ?thesis
    proof (cases "nums ! i = prev + 1")
      case True
      have "extract_loop nums (i + 1) start (nums ! i) result
            = result @ map piece (runs_from start (nums ! i) (drop (i + 1) nums))"
        using lt True add sn 1(5,6) by (intro 1(3)) simp_all
      with lt True show ?thesis
        by (subst extract_loop.simps) (simp add: dr add)
    next
      case neq: False
      let ?r = "if start = prev then result @ [number_to_string start]
                else if js_sub prev start = 1
                then result @ [number_to_string start @ js '','' @ number_to_string prev]
                else result @ [number_to_string start @ js ''-'' @ number_to_string prev]"
      have r: "?r = result @ [piece (start, prev)]"
        by (simp add: piece_def str js_sub_one)
      have "extract_loop nums (i + 1) (nums ! i) (nums ! i) ?r
            = ?r @ map piece (runs_from (nums ! i) (nums ! i) (drop (i + 1) nums))"
        using lt neq add sn 1(5) by (intro 1(1)) simp_all
      with lt neq show ?thesis
        by (subst extract_loop.simps) (simp add: dr add r Let_def del: append_assoc)
    qed
  qed
qed

lemma filter_eq_upto: "a \<le> b \<Longrightarrow> filter (\<lambda>x. x = b) [a..b] = [b]"
proof (induction a b rule: upto.induct)
  case (1 i j)
  show ?case
  proof (cases "i = j")
    case True
    then show ?thesis by (simp add: upto.simps)
  next
    case False
    with 1 have "i < j" by simp
    with 1 show ?thesis by (subst upto.simps) simp
  qed
qed

lemma runs_first_block:
  assumes ab: "a \<le> b" and gap: "\<forall>y\<in>set ys. b + 1 < y" and mem: "a' \<in> {a..b}"
  shows "filter (is_maximal_run (set ([a..b] @ ys)) a') ([a..b] @ ys) = (if a' = a then [b] else [])"
proof -
  let ?S = "set ([a..b] @ ys)"
  have S: "k \<in> ?S \<longleftrightarrow> (a \<le> k \<and> k \<le> b) \<or> k \<in> set ys" for k by auto
  have nb: "b + 1 \<notin> ?S" using gap by (auto simp: S)
  have char: "is_maximal_run ?S a' b' \<longleftrightarrow> a' = a \<and> b' = b" if "b' \<in> ?S" for b'
  proof
    assume r: "is_maximal_run ?S a' b'"
    then have le: "a' \<le> b'" and all: "\<forall>k\<in>{a'..b'}. k \<in> ?S"
      and lo: "a' - 1 \<notin> ?S" and hi: "b' + 1 \<notin> ?S"
      by (simp_all add: is_maximal_run_def)
    have a': "a' = a"
    proof (rule ccontr)
      assume "a' \<noteq> a"
      with mem have "a \<le> a' - 1 \<and> a' - 1 \<le> b" by simp
      with lo show False by (simp add: S)
    qed
    have "b' = b"
    proof (rule ccontr)
      assume ne: "b' \<noteq> b"
      show False
      proof (cases "b' < b")
        case True
        with le a' have "a \<le> b' + 1 \<and> b' + 1 \<le> b" by simp
        with hi show False by (simp add: S)
      next
        case False
        with ne have "b < b'" by simp
        with ab a' have "b + 1 \<in> {a'..b'}" by simp
        with all nb show False by blast
      qed
    qed
    with a' show "a' = a \<and> b' = b" by simp
  next
    assume "a' = a \<and> b' = b"
    moreover have "a - 1 \<notin> ?S" using gap ab by (auto simp: S)
    ultimately show "is_maximal_run ?S a' b'"
      using ab nb by (auto simp: is_maximal_run_def)
  qed
  have "filter (is_maximal_run ?S a') ([a..b] @ ys) = filter (\<lambda>b'. a' = a \<and> b' = b) ([a..b] @ ys)"
    by (rule filter_cong) (use char in auto)
  also have "\<dots> = (if a' = a then [b] else [])"
  proof (cases "a' = a")
    case True
    have "filter (\<lambda>b'. b' = b) ys = []" using gap by (auto simp: filter_empty_conv)
    with True show ?thesis by (simp add: filter_eq_upto[OF ab])
  next
    case False
    then show ?thesis by simp
  qed
  finally show ?thesis .
qed

lemma runs_later_block:
  assumes ab: "a \<le> b" and gap: "\<forall>y\<in>set ys. b + 1 < y" and mem: "a' \<in> set ys"
  shows "filter (is_maximal_run (set ([a..b] @ ys)) a') ([a..b] @ ys)
       = filter (is_maximal_run (set ys) a') ys"
proof -
  let ?S = "set ([a..b] @ ys)"
  have S: "k \<in> ?S \<longleftrightarrow> (a \<le> k \<and> k \<le> b) \<or> k \<in> set ys" for k by auto
  from gap mem have big: "b + 1 < a'" by blast
  have same: "k \<in> ?S \<longleftrightarrow> k \<in> set ys" if "b < k" for k using that by (auto simp: S)
  have eq: "is_maximal_run ?S a' = is_maximal_run (set ys) a'"
  proof
    fix b'
    show "is_maximal_run ?S a' b' \<longleftrightarrow> is_maximal_run (set ys) a' b'"
    proof (cases "a' \<le> b'")
      case True
      have "(\<forall>k\<in>{a'..b'}. k \<in> ?S) \<longleftrightarrow> (\<forall>k\<in>{a'..b'}. k \<in> set ys)"
        using big same by (intro ball_cong refl) simp
      moreover have "a' - 1 \<in> ?S \<longleftrightarrow> a' - 1 \<in> set ys" using big by (intro same) simp
      moreover have "b' + 1 \<in> ?S \<longleftrightarrow> b' + 1 \<in> set ys" using big True by (intro same) simp
      ultimately show ?thesis unfolding is_maximal_run_def by simp
    next
      case False
      then show ?thesis by (simp add: is_maximal_run_def)
    qed
  qed
  have "filter (is_maximal_run (set ys) a') [a..b] = []"
    using big by (auto simp: filter_empty_conv is_maximal_run_def)
  then show ?thesis by (simp add: eq del: set_append)
qed

lemma maximal_runs_block:
  assumes ab: "a \<le> b" and gap: "\<forall>y\<in>set ys. b + 1 < y"
  shows "maximal_runs ([a..b] @ ys) = (a, b) # maximal_runs ys"
proof -
  let ?n = "[a..b] @ ys"
  let ?f = "\<lambda>a'. map (\<lambda>b'. (a', b')) (filter (is_maximal_run (set ?n) a') ?n)"
  have first: "concat (map ?f [a..b]) = [(a, b)]"
  proof -
    have one: "?f a' = (if a' = a then [(a, b)] else [])" if "a' \<in> set [a..b]" for a'
    proof -
      from that have m: "a' \<in> {a..b}" by simp
      show ?thesis by (simp only: runs_first_block[OF ab gap m]) simp
    qed
    have "map ?f [a..b] = map (\<lambda>a'. if a' = a then [(a, b)] else []) [a..b]"
      by (rule map_cong[OF refl one])
    also have "concat \<dots> = [(a, b)]"
    proof -
      have "[a..b] = a # [a + 1..b]" using ab by (simp add: upto.simps)
      moreover have "concat (map (\<lambda>a'. if a' = a then [(a, b)] else []) [a + 1..b]) = []"
        by auto
      ultimately show ?thesis by simp
    qed
    finally show ?thesis .
  qed
  have later: "map ?f ys = map (\<lambda>a'. map (\<lambda>b'. (a', b')) (filter (is_maximal_run (set ys) a') ys)) ys"
    by (rule map_cong[OF refl]) (simp only: runs_later_block[OF ab gap])
  have "maximal_runs ?n = concat (map ?f [a..b]) @ concat (map ?f ys)"
    by (simp only: maximal_runs_def map_append concat_append)
  also have "\<dots> = [(a, b)] @ maximal_runs ys"
    by (simp only: first later maximal_runs_def)
  finally show ?thesis by simp
qed

lemma maximal_runs_Nil: "maximal_runs [] = []"
  by (simp add: maximal_runs_def)

lemma runs_from_maximal:
  "a \<le> b \<Longrightarrow> sorted_wrt (<) xs \<Longrightarrow> \<forall>x\<in>set xs. b < x \<Longrightarrow>
   runs_from a b xs = maximal_runs ([a..b] @ xs)"
proof (induction xs arbitrary: a b)
  case Nil
  then show ?case
    using maximal_runs_block[of a b "[]"] by (simp add: maximal_runs_Nil)
next
  case (Cons x xs)
  show ?case
  proof (cases "x = b + 1")
    case True
    have e: "[a..b + 1] @ xs = [a..b] @ x # xs"
      using Cons.prems(1) True by (simp add: upto_rec2)
    have "runs_from a b (x # xs) = runs_from a (b + 1) xs"
      using True by simp
    also have "\<dots> = maximal_runs ([a..b + 1] @ xs)"
      using Cons.prems True by (intro Cons.IH) auto
    finally show ?thesis by (simp only: e)
  next
    case False
    with Cons.prems have gap: "\<forall>y\<in>set (x # xs). b + 1 < y" by force
    have "runs_from x x xs = maximal_runs ([x..x] @ xs)"
      using Cons.prems by (intro Cons.IH) auto
    then show ?thesis
      using False maximal_runs_block[OF Cons.prems(1) gap] by simp
  qed
qed

lemma piece_render: "fst r \<le> snd r \<Longrightarrow> piece r = render_run r"
  by (auto simp: piece_def render_run_def Let_def)

lemma maximal_runs_ordered: "r \<in> set (maximal_runs nums) \<Longrightarrow> fst r \<le> snd r"
  by (auto simp: maximal_runs_def is_maximal_run_def)

lemma extractRanges_refines:
  assumes "sorted_wrt (<) nums" and safe: "\<forall>n\<in>set nums. safe n"
  shows "extractRanges nums = spec_extractRanges nums"
proof (cases nums)
  case Nil
  then show ?thesis
    by (simp add: extractRanges_def spec_extractRanges_def maximal_runs_Nil js_def)
next
  case (Cons x xs)
  with assms have "runs_from x x xs = maximal_runs ([x..x] @ xs)"
    by (intro runs_from_maximal) auto
  then have r: "runs_from x x xs = maximal_runs nums" using Cons by simp
  have mp: "map piece (maximal_runs nums) = map render_run (maximal_runs nums)"
    by (rule map_cong) (simp_all add: piece_render maximal_runs_ordered)
  have "extract_loop nums 1 (nums ! 0) (nums ! 0) [] = map piece (runs_from x x xs)"
    using Cons safe by (simp add: extract_loop_runs)
  also have "\<dots> = map render_run (maximal_runs nums)"
    by (simp only: r mp)
  finally have "extract_loop nums 1 (nums ! 0) (nums ! 0) [] = map render_run (maximal_runs nums)" .
  moreover have "length nums \<noteq> 0" using Cons by simp
  ultimately show ?thesis
    by (simp only: extractRanges_def spec_extractRanges_def if_False)
qed

text \<open>
  C5 as amended.  For every strictly increasing sequence of safe integers (integers of
  magnitude at most \<open>2^53 - 1\<close>), \<open>extractRanges\<close> renders each maximal run of three or
  more consecutive integers as \<open>start-end\<close>, each run of exactly two as \<open>start,end\<close>, each
  isolated integer alone, joined by commas; in particular \<open>[0,1,2,3,4,5]\<close> gives \<open>0-5\<close>,
  \<open>[1,4,5]\<close> gives \<open>1,4,5\<close>, \<open>[0,1,2,5,7,8,9]\<close> gives \<open>0-2,5,7-9\<close> and \<open>[1,2,4,5]\<close> gives
  \<open>1,2,4,5\<close>.
\<close>

theorem extractRanges_renders_runs:
  assumes "sorted_wrt (<) nums" and "\<forall>n\<in>set nums. safe n"
  shows "extractRanges nums = spec_extractRanges nums
       \<and> extractRanges [0, 1, 2, 3, 4, 5] = js ''0-5''
       \<and> extractRanges [1, 4, 5] = js ''1,4,5''
       \<and> extractRanges [0, 1, 2, 5, 7, 8, 9] = js ''0-2,5,7-9''
       \<and> extractRanges [1, 2, 4, 5] = js ''1,2,4,5''"
proof -
  have "extractRanges [0, 1, 2, 3, 4, 5] = js ''0-5''"
    by (simp add: extractRanges_def extract_loop_runs safe_def piece_def show_int_def
        digits.simps js_def)
  moreover have "extractRanges [1, 4, 5] = js ''1,4,5''"
    by (simp add: extractRanges_def extract_loop_runs safe_def piece_def show_int_def
        digits.simps js_def)
  moreover have "extractRanges [0, 1, 2, 5, 7, 8, 9] = js ''0-2,5,7-9''"
    by (simp add: extractRanges_def extract_loop_runs safe_def piece_def show_int_def
        digits.simps js_def)
  moreover have "extractRanges [1, 2, 4, 5] = js ''1,2,4,5''"
    by (simp add: extractRanges_def extract_loop_runs safe_def piece_def show_int_def
        digits.simps js_def)
  ultimately show ?thesis
    using extractRanges_refines[OF assms] by simp
qed

theorem extractRanges_renders_runs_witness:
  "sorted_wrt (<) [-3, -2, -1, 1, 2, 7 :: int]
   \<and> list_all safe [-3, -2, -1, 1, 2, 7]
   \<and> maximal_runs [-3, -2, -1, 1, 2, 7] = [(-3, -1), (1, 2), (7, 7)]
   \<and> extractRanges [-3, -2, -1, 1, 2, 7] = js ''-3--1,1,2,7''"
proof -
  have s: "sorted_wrt (<) [-3, -2, -1, 1, 2, 7 :: int]" by simp
  have f: "\<forall>n\<in>set [-3, -2, -1, 1, 2, 7]. safe n" by (simp add: safe_def)
  have m: "maximal_runs [-3, -2, -1, 1, 2, 7] = [(-3, -1), (1, 2), (7, 7)]"
    by code_simp
  show ?thesis
    using extractRanges_renders_runs[OF s f] s f m
    by (simp add: spec_extractRanges_def render_run_def show_int_def digits.simps js_def
        list_all_iff)
qed

text \<open>
  C5 as stated, for every strictly increasing integer sequence.  The integers
  \<open>9007199254740994\<close> and \<open>9007199254740996\<close> (\<open>2^53 + 2\<close> and \<open>2^53 + 4\<close>) are doubles, they
  are not consecutive, and each is a run of its own, to be rendered \<open>start,end\<close> at most;
  in the code \<open>prev + 1\<close> rounds to the second of them, and the two are rendered as a
  dash range.
\<close>

theorem extractRanges_beyond_safe:
  "sorted_wrt (<) [9007199254740994, 9007199254740996 :: int]
   \<and> round_double 9007199254740994 = 9007199254740994
   \<and> round_double 9007199254740996 = 9007199254740996
   \<and> extractRanges [9007199254740994, 9007199254740996]
       = js ''9007199254740994-9007199254740996''
   \<and> spec_extractRanges [9007199254740994, 9007199254740996]
       = js ''9007199254740994,9007199254740996''
   \<and> extractRanges [9007199254740994, 9007199254740996]
       \<noteq> spec_extractRanges [9007199254740994, 9007199254740996]"
proof -
  have rd: "round_double 9007199254740994 = 9007199254740994"
    "round_double 9007199254740996 = 9007199254740996"
    by (simp_all add: round_double_def round_nat_def ulp.simps Let_def)
  have sub: "js_sub 9007199254740996 9007199254740994 = 2"
    by (simp add: js_sub_def round_double_def round_nat_def ulp.simps Let_def)
  have stop: "extract_loop [9007199254740994, 9007199254740996] (Suc (Suc (Suc 0))) s p r = r"
    for s p r
    by (subst extract_loop.simps) simp
  have last: "extract_loop [9007199254740994, 9007199254740996] (Suc (Suc 0)) 9007199254740994
        9007199254740996 [] = [js ''9007199254740994-9007199254740996'']"
    by (subst extract_loop.simps)
      (simp add: sub stop number_to_string_examples Let_def, simp add: js_def)
  have first: "extract_loop [9007199254740994, 9007199254740996] (Suc 0) 9007199254740994
        9007199254740994 [] = [js ''9007199254740994-9007199254740996'']"
    by (subst extract_loop.simps) (simp add: js_add_beyond_safe last)
  have code: "extractRanges [9007199254740994, 9007199254740996]
       = js ''9007199254740994-9007199254740996''"
    by (simp add: extractRanges_def first)
  have runs: "maximal_runs [9007199254740994, 9007199254740996]
       = [(9007199254740994, 9007199254740994), (9007199254740996, 9007199254740996)]"
    by code_simp
  have spec: "spec_extractRanges [9007199254740994, 9007199254740996]
       = js ''9007199254740994,9007199254740996''"
    by (simp add: spec_extractRanges_def runs render_run_def show_int_def digits.simps js_def)
  have "js ''9007199254740994-9007199254740996'' \<noteq> js ''9007199254740994,9007199254740996''"
    by (simp add: js_def)
  with rd code spec show ?thesis by simp
qed

text \<open>
  C10.  \<open>extractRanges\<close> applied to the empty list returns the empty string: it does not
  fail and emits no separator.
\<close>

theorem extractRanges_empty: "extractRanges [] = js [] \<and> extractRanges [] = []"
  by (simp add: extractRanges_def js_def)

subsection \<open>Compass points\<close>

text \<open>
  C2.  The claim: \<open>createCompassPoints()\<close> returns, without error, an array of exactly 32
  records whose entry \<open>i\<close> has azimuth \<open>i * 11.25\<close> and the standard abbreviation.
  The code: the loops fill the 16 indices \<open>0 .. 15\<close>, and the assignment to
  \<open>points[20].abbreviation\<close> raises a \<open>TypeError\<close>; nothing is returned.
\<close>

theorem createCompassPoints_raises:
  "createCompassPoints = Inl TypeError \<and> length compass_fill = 16"
  by code_simp

subsection \<open>Poker hands\<close>

text \<open>
  With a \<open>NaN\<close> among the values, in whatever order, a straight is seen exactly when the
  hand has one card: the result of the function does not depend on how the engine orders
  such an array.
\<close>

lemma isStraight_NaN:
  assumes "None \<in> set vs"
  shows "isStraight vs \<longleftrightarrow> length vs = 1"
proof -
  from assms obtain j where j: "j < length vs" "vs ! j = None"
    by (auto simp: in_set_conv_nth)
  have arm2: "\<not> ((0 < length vs \<and> vs ! 0 = Some 0)
        \<and> list_all (\<lambda>i. tl vs ! i = Some (int i + 1)) [0..<length (tl vs)]
        \<and> (4 < length vs \<and> vs ! 4 = Some 12))"
  proof (cases j)
    case 0
    with j show ?thesis by simp
  next
    case (Suc k)
    with j have "k < length (tl vs)" "tl vs ! k = None" by (simp_all add: nth_tl)
    then show ?thesis by (auto simp: list_all_iff)
  qed
  have arm1: "list_all (\<lambda>i. i = 0 \<or> (vs ! i \<noteq> None
                  \<and> vs ! i = map_option (\<lambda>v. v + 1) (vs ! (i - 1)))) [0..<length vs]
              \<longleftrightarrow> length vs = 1"
  proof
    assume a: "list_all (\<lambda>i. i = 0 \<or> (vs ! i \<noteq> None
                  \<and> vs ! i = map_option (\<lambda>v. v + 1) (vs ! (i - 1)))) [0..<length vs]"
    show "length vs = 1"
    proof (rule ccontr)
      assume "length vs \<noteq> 1"
      with j(1) have two: "1 < length vs" by simp
      show False
      proof (cases j)
        case 0
        from a two have "vs ! 1 \<noteq> None \<and> vs ! 1 = map_option (\<lambda>v. v + 1) (vs ! 0)"
          by (auto simp: list_all_iff)
        with j 0 show False by auto
      next
        case (Suc k)
        from a j(1) Suc have "vs ! j \<noteq> None" by (auto simp: list_all_iff)
        with j(2) show False by simp
      qed
    qed
  next
    assume "length vs = 1"
    then show "list_all (\<lambda>i. i = 0 \<or> (vs ! i \<noteq> None
                  \<and> vs ! i = map_option (\<lambda>v. v + 1) (vs ! (i - 1)))) [0..<length vs]"
      by (simp add: list_all_iff)
  qed
  from arm1 arm2 show ?thesis unfolding isStraight_def by blast
qed

lemma ace_low_values:
  "map rank_value (map card_rank ace_low_hand) = [Some 12, Some 2, Some 1, Some 3, Some 1]"
  by (simp add: ace_low_hand_def mk_card_def js_def card_rank_def rank_value_def parseInt_def
      is_digit_def spade_def Let_def)

lemma ace_low_suits: "isFlush (map card_suit ace_low_hand)"
  by (simp add: ace_low_hand_def mk_card_def js_def card_suit_def isFlush_def)

lemma ace_low_counts: "map snd (foldl count_rank [] (map card_rank ace_low_hand)) = [1, 1, 1, 1, 1]"
  by (simp add: ace_low_hand_def mk_card_def js_def card_rank_def)

lemma ace_low_sorted:
  "sort_values [Some 12, Some 2, Some 1, Some 3, Some 1]
   = [Some 1, Some 1, Some 2, Some 3, Some 12]"
  by (simp add: sort_values_def)

lemma upt5: "[0..<5] = [0, 1, 2, 3, 4]" "[0..<4] = [0, 1, 2, 3]"
  by (simp_all add: upt_rec)

lemma ace_low_not_straight: "\<not> isStraight [Some 1, Some 1, Some 2, Some 3, Some 12]"
  by (simp add: isStraight_def upt5)

lemma hearts_values:
  "map rank_value (map card_rank hearts_hand) = [Some 2, Some 3, Some 4, Some 5, Some 6]"
  by (simp add: hearts_hand_def mk_card_def js_def card_rank_def rank_value_def parseInt_def
      is_digit_def heart_def Let_def)

lemma hearts_suits: "isFlush (map card_suit hearts_hand)"
  by (simp add: hearts_hand_def mk_card_def js_def card_suit_def isFlush_def)

lemma hearts_sorted:
  "sort_values [Some 2, Some 3, Some 4, Some 5, Some 6]
   = [Some 2, Some 3, Some 4, Some 5, Some 6]"
  by (simp add: sort_values_def)

lemma hearts_straight: "isStraight [Some 2, Some 3, Some 4, Some 5, Some 6]"
  by (simp add: isStraight_def upt5)

lemma hearts_straight_flush: "getPokerHandRank hearts_hand = StraightFlush"
  unfolding getPokerHandRank_def Let_def hearts_values
  by (simp add: hearts_sorted hearts_straight hearts_suits)

text \<open>
  A hand with a card that has no rank, whose value is \<open>NaN\<close>: a suit alone followed by
  4, 3, 5, 2 of spades ranks \<open>Flush\<close>.
\<close>

lemma no_rank_hand_flush: "getPokerHandRank no_rank_hand = Flush"
proof -
  have v: "map rank_value (map card_rank no_rank_hand) = [None, Some 2, Some 1, Some 3, Some 1]"
    by (simp add: no_rank_hand_def mk_card_def js_def card_rank_def rank_value_def parseInt_def
        is_digit_def spade_def Let_def)
  have s: "sort_values [None, Some 2, Some 1, Some 3, Some 1] = [None, Some 2, Some 1, Some 3, Some 1]"
    by (simp add: sort_values_def)
  have n: "\<not> isStraight [None, Some 2, Some 1, Some 3, Some 1]"
    by (simp add: isStraight_NaN)
  have f: "isFlush (map card_suit no_rank_hand)"
    by (simp add: no_rank_hand_def mk_card_def js_def card_suit_def isFlush_def)
  have c: "map snd (foldl count_rank [] (map card_rank no_rank_hand)) = [1, 1, 1, 1, 1]"
    by (simp add: no_rank_hand_def mk_card_def js_def card_rank_def)
  show ?thesis
    unfolding getPokerHandRank_def Let_def v c
    by (simp add: s n f math_max_def)
qed

text \<open>
  C3.  The claim: the ace-low hand (ace, 4, 3, 5, 2 of spades) and the hand 4, 5, 6, 7, 8 of
  hearts both rank \<open>StraightFlush\<close>.  The code: the ranks \<open>2\<close> and \<open>3\<close> both get the
  value \<open>1\<close> (\<open>indexOf\<close> returns the falsy \<open>0\<close> for \<open>2\<close>), the sorted values of the first
  hand are \<open>1, 1, 2, 3, 12\<close>, no straight is seen, and the hand ranks \<open>Flush\<close>.
\<close>

theorem ace_low_ranks_flush: "getPokerHandRank ace_low_hand = Flush"
  unfolding getPokerHandRank_def Let_def ace_low_values ace_low_counts
  by (simp add: ace_low_sorted ace_low_not_straight ace_low_suits math_max_def)

subsection \<open>CSS selector builder\<close>

text \<open>
  What holds of the guards: a second \<open>id\<close> or \<open>pseudoElement\<close> always throws, a second
  \<open>element\<close> throws when the first one stored a non-empty name, and \<open>class\<close>, \<open>attr\<close> and
  \<open>pseudoClass\<close> never throw and append to their arrays.
\<close>

lemma id_twice: "id_sel v s = Inr s' \<Longrightarrow> id_sel w s' = Inl UsageError"
  by (auto simp: id_sel_def truthy_def js_def split: if_splits)

lemma pseudoElement_twice: "pseudoElement v s = Inr s' \<Longrightarrow> pseudoElement w s' = Inl UsageError"
  by (auto simp: pseudoElement_def truthy_def js_def split: if_splits)

lemma element_twice: "v \<noteq> [] \<Longrightarrow> element v s = Inr s' \<Longrightarrow> element w s' = Inl UsageError"
  by (auto simp: element_def truthy_def split: if_splits)

lemma accumulate:
  "class_sel v s = Inr (s\<lparr>classes := classes s @ [js ''.'' @ v]\<rparr>)"
  "attr v s = Inr (s\<lparr>attrs := attrs s @ [js ''['' @ v @ js '']'']\<rparr>)"
  "pseudoClass v s = Inr (s\<lparr>pseudoClasses := pseudoClasses s @ [js '':'' @ v]\<rparr>)"
  by (simp_all add: class_sel_def attr_def pseudoClass_def)

text \<open>
  C7.  The claim: a second call of \<open>element\<close>, \<open>id\<close> or \<open>pseudoElement\<close> on a chain whose
  part is already set raises a usage error.  The code: after \<open>element('')\<close> the stored name is
  the empty string, which the guard takes for unset, and \<open>element('div')\<close> is accepted.
\<close>

theorem element_after_empty_element_accepted:
  "chain (element (js []) new_CssSelector) (element (js ''div''))
   = Inr (new_CssSelector\<lparr>element_part := Some (js ''div'')\<rparr>)"
  by (simp add: chain_def element_def truthy_def new_CssSelector_def js_def)

subsection \<open>Word wrap\<close>

lemma split_sp_nonempty: "split_sp s \<noteq> []"
  by (induction s) (auto split: list.splits)

lemma split_sp_append: "split_sp (a @ 32 # b) = split_sp a @ split_sp b"
  by (induction a) (use split_sp_nonempty in \<open>auto split: list.splits\<close>)

lemma split_sp_word: "32 \<notin> set w \<Longrightarrow> split_sp w = [w]"
  by (induction w) auto

lemma split_sp_no_space: "w \<in> set (split_sp s) \<Longrightarrow> 32 \<notin> set w"
  by (induction s arbitrary: w) (auto split: if_splits list.splits)

lemma words_of_append: "words_of (xs @ ys) = words_of xs @ words_of ys"
  by (simp add: words_of_def)

lemma words_of_word: "32 \<notin> set w \<Longrightarrow> words_of [w] = (if w \<noteq> [] then [w] else [])"
  by (simp add: words_of_def split_sp_word)

lemma words_of_line: "32 \<notin> set w \<Longrightarrow> words_of [cl @ 32 # w] = words_of [cl] @ (if w \<noteq> [] then [w] else [])"
  by (simp add: words_of_def split_sp_append split_sp_word)

lemma words_of_Nil: "words_of [] = []" "words_of [[]] = []"
  by (simp_all add: words_of_def)

lemma wrap_step_words:
  assumes "32 \<notin> set w"
  shows "words_of (lines_of (wrap_step columns st w))
       = words_of (lines_of st) @ (if fits columns w then [w] else [])"
proof -
  obtain cl out where st: "st = (cl, out)" by (cases st)
  have l: "lines_of (cl, out) = out @ (if cl \<noteq> [] then [cl] else [])"
    by (simp add: lines_of_def)
  show ?thesis
  proof (cases "int (length cl) + int (length w) + (if cl \<noteq> [] then 1 else 0) \<le> columns")
    case True
    then have f: "fits columns w \<longleftrightarrow> w \<noteq> []" by (auto simp: fits_def split: if_splits)
    show ?thesis
    proof (cases "cl = []")
      case True
      with \<open>_ \<le> columns\<close> show ?thesis
        using assms by (simp add: st wrap_step_def lines_of_def js_def words_of_append words_of_word f words_of_Nil)
    next
      case False
      with True show ?thesis
        using assms by (simp add: st wrap_step_def lines_of_def js_def words_of_append words_of_line f)
    qed
  next
    case False
    then show ?thesis
      using assms
      by (auto simp: st wrap_step_def lines_of_def js_def words_of_append words_of_word fits_def words_of_Nil)
  qed
qed

lemma foldl_wrap_words:
  "\<forall>w\<in>set ws. 32 \<notin> set w \<Longrightarrow>
   words_of (lines_of (foldl (wrap_step columns) st ws))
   = words_of (lines_of st) @ filter (fits columns) ws"
  by (induction ws arbitrary: st) (simp_all add: wrap_step_words)

lemma wrap_step_inv: "line_inv columns st \<Longrightarrow> line_inv columns (wrap_step columns st w)"
  by (cases st) (auto simp: line_inv_def wrap_step_def js_def split: if_splits)

lemma foldl_wrap_inv: "line_inv columns st \<Longrightarrow> line_inv columns (foldl (wrap_step columns) st ws)"
  by (induction ws arbitrary: st) (simp_all add: wrap_step_inv)

text \<open>
  What the code does, for every text and column limit: the non-empty words on its lines
  are the pieces of \<open>text.split(' ')\<close> that are not empty and no longer than the limit, in
  the order of the text, and every line is non-empty and within the limit.
\<close>

lemma wrapText_words:
  "words_of (wrapText text columns) = filter (fits columns) (split_sp text)
   \<and> (\<forall>line\<in>set (wrapText text columns). line \<noteq> [] \<and> int (length line) \<le> columns)
   \<and> (\<forall>word\<in>set (split_sp text). fits columns word \<longrightarrow>
         (\<exists>line\<in>set (wrapText text columns). word \<in> set (split_sp line)))
   \<and> (\<forall>line\<in>set (wrapText text columns). \<forall>word\<in>set (split_sp line).
         int (length word) \<le> columns)"
proof -
  have "\<forall>w\<in>set (split_sp text). 32 \<notin> set w"
    using split_sp_no_space by blast
  then have words: "words_of (wrapText text columns) = filter (fits columns) (split_sp text)"
    by (simp add: wrapText_def foldl_wrap_words) (simp add: lines_of_def js_def words_of_def)
  have "line_inv columns (js [], [])" by (simp add: line_inv_def js_def)
  then have "line_inv columns (foldl (wrap_step columns) (js [], []) (split_sp text))"
    by (rule foldl_wrap_inv)
  then have lines: "\<forall>line\<in>set (wrapText text columns). line \<noteq> [] \<and> int (length line) \<le> columns"
    by (auto simp: wrapText_def line_inv_def lines_of_def)
  have emitted: "\<exists>line\<in>set (wrapText text columns). word \<in> set (split_sp line)"
    if "word \<in> set (split_sp text)" "fits columns word" for word
  proof -
    from that have "word \<in> set (words_of (wrapText text columns))" by (simp add: words)
    then show ?thesis by (auto simp: words_of_def)
  qed
  have short: "int (length word) \<le> columns"
    if "line \<in> set (wrapText text columns)" "word \<in> set (split_sp line)" for line word
  proof (cases "word = []")
    case True
    with lines that(1) show ?thesis by fastforce
  next
    case False
    with that have "word \<in> set (words_of (wrapText text columns))"
      by (auto simp: words_of_def)
    then show ?thesis by (simp add: words fits_def)
  qed
  from words lines emitted short show ?thesis by blast
qed

lemma wrapText_words_example:
  "fits 3 (js ''cd'') \<and> js ''cd'' \<in> set (split_sp (js ''ab abcdef cd''))
   \<and> (\<exists>line\<in>set (wrapText (js ''ab abcdef cd'') 3). js ''cd'' \<in> set (split_sp line))
   \<and> words_of (wrapText (js ''ab abcdef cd'') 3) = [js ''ab'', js ''cd'']"
proof -
  have f: "fits 3 (js ''cd'')" by (simp add: fits_def js_def)
  have m: "js ''cd'' \<in> set (split_sp (js ''ab abcdef cd''))" by (simp add: js_def)
  have w: "filter (fits 3) (split_sp (js ''ab abcdef cd'')) = [js ''ab'', js ''cd'']"
    by (simp add: fits_def js_def)
  from wrapText_words[of "js ''ab abcdef cd''" 3] f m w show ?thesis by simp
qed

text \<open>
  C4.  The claim: every word of the text is emitted on some output line, a word longer
  than the column limit on a line of its own.  The code: with limit 3 the word \<open>abcdef\<close>
  of \<open>ab abcdef cd\<close> is on no line, the lines being \<open>ab\<close> and \<open>cd\<close>; and for the text
  \<open>abcdef\<close> alone nothing is yielded.
\<close>

theorem wrapText_drops_long_word:
  "js ''abcdef'' \<in> set (split_sp (js ''ab abcdef cd''))
   \<and> wrapText (js ''ab abcdef cd'') 3 = [js ''ab'', js ''cd'']
   \<and> js ''abcdef'' \<notin> set (concat (map split_sp (wrapText (js ''ab abcdef cd'') 3)))
   \<and> wrapText (js ''abcdef'') 3 = []"
  by (simp add: wrapText_def wrap_step_def lines_of_def js_def)

subsection \<open>Merging sorted sequences\<close>

lemma pending_next: "pending (fst (iter_next xs)) (snd (iter_next xs)) = xs"
  by (cases xs) (simp_all add: iter_next_def pending_def)

lemma pending_start:
  "pending1 (mergeSortedSequences s1 s2) = s1" "pending2 (mergeSortedSequences s1 s2) = s2"
  by (simp_all add: pending1_def pending2_def mergeSortedSequences_def case_prod_beta pending_next)

lemma pending_advance1:
  "pending1 (advance1 s) = iter1 s" "pending2 (advance1 s) = pending2 s"
  by (simp_all add: pending1_def pending2_def advance1_def case_prod_beta pending_next)

lemma pending_advance2:
  "pending1 (advance2 s) = pending1 s" "pending2 (advance2 s) = iter2 s"
  by (simp_all add: pending1_def pending2_def advance2_def case_prod_beta pending_next)

lemma merge_next_None:
  "merge_next s = None \<Longrightarrow> pending1 s = LNil \<and> pending2 s = LNil"
  by (auto simp: merge_next_def pending1_def pending2_def pending_def split: option.splits if_splits)

lemma merge_next_Some:
  assumes "merge_next s = Some (v, s')"
  shows "(pending1 s = LCons v (pending1 s') \<and> pending2 s' = pending2 s
          \<and> (\<forall>v2 r. pending2 s = LCons v2 r \<longrightarrow> v \<le> v2))
       \<or> (pending2 s = LCons v (pending2 s') \<and> pending1 s' = pending1 s
          \<and> (\<forall>v1 r. pending1 s = LCons v1 r \<longrightarrow> v \<le> v1))"
proof (cases "val1 s")
  case n1: None
  show ?thesis
  proof (cases "val2 s")
    case None
    with n1 assms show ?thesis by (simp add: merge_next_def)
  next
    case (Some v2)
    with n1 assms have "v = v2" "s' = advance2 s" by (simp_all add: merge_next_def)
    with n1 Some show ?thesis
      by (simp add: pending_advance2) (simp add: pending1_def pending2_def pending_def)
  qed
next
  case s1: (Some v1)
  show ?thesis
  proof (cases "val2 s")
    case None
    with s1 assms have "v = v1" "s' = advance1 s" by (simp_all add: merge_next_def)
    with s1 None show ?thesis
      by (simp add: pending_advance1) (simp add: pending1_def pending2_def pending_def)
  next
    case (Some v2)
    show ?thesis
    proof (cases "v1 \<le> v2")
      case True
      with s1 Some assms have "v = v1" "s' = advance1 s" by (simp_all add: merge_next_def)
      with s1 Some True show ?thesis
        by (simp add: pending_advance1) (simp add: pending1_def pending2_def pending_def)
    next
      case False
      with s1 Some assms have "v = v2" "s' = advance2 s" by (simp_all add: merge_next_def)
      moreover from False have "v2 \<le> v1" by simp
      ultimately show ?thesis
        using s1 Some
        by (simp add: pending_advance2) (simp add: pending1_def pending2_def pending_def)
    qed
  qed
qed

lemma ltake_LNil: "ltake n LNil = []"
  by (cases n) simp_all

lemma ascending_LNil: "ascending LNil"
  by (simp add: ascending_def ltake_LNil)

lemma ascending_tail: "ascending (LCons x xs) \<Longrightarrow> ascending xs"
  unfolding ascending_def
proof
  fix n
  assume "\<forall>n. sorted (ltake n (LCons x xs))"
  then have "sorted (ltake (Suc n) (LCons x xs))" by blast
  then show "sorted (ltake n xs)" by simp
qed

lemma ascending_head_le:
  assumes "ascending (LCons x xs)" and "y \<in> set (ltake m (LCons x xs))"
  shows "x \<le> y"
proof (cases m)
  case 0
  with assms(2) show ?thesis by simp
next
  case (Suc k)
  from assms(1) have "sorted (ltake (Suc k) (LCons x xs))"
    unfolding ascending_def by blast
  with assms(2) Suc show ?thesis by auto
qed

lemma ltake_later: "\<exists>m. y \<in> set (ltake m xs) \<Longrightarrow> \<exists>m. y \<in> set (ltake m (LCons x xs))"
proof -
  assume "\<exists>m. y \<in> set (ltake m xs)"
  then obtain m where "y \<in> set (ltake m xs)" ..
  then have "y \<in> set (ltake (Suc m) (LCons x xs))" by simp
  then show ?thesis ..
qed

lemma ltake_head: "\<exists>m. x \<in> set (ltake m (LCons x xs))"
  by (rule exI[of _ "Suc 0"]) simp

lemma take_merged_elements:
  "y \<in> set (take_merged n s) \<Longrightarrow>
   (\<exists>m. y \<in> set (ltake m (pending1 s))) \<or> (\<exists>m. y \<in> set (ltake m (pending2 s)))"
proof (induction n arbitrary: s)
  case 0
  then show ?case by simp
next
  case (Suc n)
  show ?case
  proof (cases "merge_next s")
    case None
    with Suc.prems show ?thesis by simp
  next
    case (Some p)
    obtain v s' where p: "p = (v, s')" by (cases p)
    with Some Suc.prems have y: "y = v \<or> y \<in> set (take_merged n s')" by simp
    from Some p have step: "merge_next s = Some (v, s')" by simp
    from merge_next_Some[OF step] show ?thesis
    proof
      assume a: "pending1 s = LCons v (pending1 s') \<and> pending2 s' = pending2 s
          \<and> (\<forall>v2 r. pending2 s = LCons v2 r \<longrightarrow> v \<le> v2)"
      from y show ?thesis
      proof
        assume "y = v"
        with a show ?thesis using ltake_head[of v "pending1 s'"] by simp
      next
        assume "y \<in> set (take_merged n s')"
        from Suc.IH[OF this] a show ?thesis
          using ltake_later[of y "pending1 s'" v] by auto
      qed
    next
      assume a: "pending2 s = LCons v (pending2 s') \<and> pending1 s' = pending1 s
          \<and> (\<forall>v1 r. pending1 s = LCons v1 r \<longrightarrow> v \<le> v1)"
      from y show ?thesis
      proof
        assume "y = v"
        with a show ?thesis using ltake_head[of v "pending2 s'"] by simp
      next
        assume "y \<in> set (take_merged n s')"
        from Suc.IH[OF this] a show ?thesis
          using ltake_later[of y "pending2 s'" v] by auto
      qed
    qed
  qed
qed

lemma ascending_bound:
  assumes "ascending xs" and "\<forall>v r. xs = LCons v r \<longrightarrow> b \<le> v" and "y \<in> set (ltake m xs)"
  shows "b \<le> y"
proof (cases xs)
  case LNil
  with assms(3) show ?thesis by (simp add: ltake_LNil)
next
  case (LCons v r)
  with assms(2) have "b \<le> v" by simp
  moreover have "v \<le> y" using ascending_head_le assms(1,3) LCons by blast
  ultimately show ?thesis by simp
qed

lemma take_merged_sorted:
  "ascending (pending1 s) \<Longrightarrow> ascending (pending2 s) \<Longrightarrow> sorted (take_merged n s)"
proof (induction n arbitrary: s)
  case 0
  then show ?case by simp
next
  case (Suc n)
  show ?case
  proof (cases "merge_next s")
    case None
    then show ?thesis by simp
  next
    case (Some p)
    obtain v s' where p: "p = (v, s')" by (cases p)
    from Some p have step: "merge_next s = Some (v, s')" by simp
    have asc': "ascending (pending1 s') \<and> ascending (pending2 s')"
      and low: "\<forall>y. (\<exists>m. y \<in> set (ltake m (pending1 s'))) \<or> (\<exists>m. y \<in> set (ltake m (pending2 s')))
                  \<longrightarrow> v \<le> y"
      using merge_next_Some[OF step]
    proof -
      from merge_next_Some[OF step]
      show "ascending (pending1 s') \<and> ascending (pending2 s')"
        using Suc.prems ascending_tail by (metis)
      from merge_next_Some[OF step]
      show "\<forall>y. (\<exists>m. y \<in> set (ltake m (pending1 s'))) \<or> (\<exists>m. y \<in> set (ltake m (pending2 s')))
                  \<longrightarrow> v \<le> y"
      proof
        assume a: "pending1 s = LCons v (pending1 s') \<and> pending2 s' = pending2 s
          \<and> (\<forall>v2 r. pending2 s = LCons v2 r \<longrightarrow> v \<le> v2)"
        show ?thesis
        proof (intro allI impI)
          fix y
          assume "(\<exists>m. y \<in> set (ltake m (pending1 s'))) \<or> (\<exists>m. y \<in> set (ltake m (pending2 s')))"
          then show "v \<le> y"
          proof
            assume "\<exists>m. y \<in> set (ltake m (pending1 s'))"
            then have "\<exists>m. y \<in> set (ltake m (LCons v (pending1 s')))" by (rule ltake_later)
            then show ?thesis using ascending_head_le Suc.prems(1) a by metis
          next
            assume "\<exists>m. y \<in> set (ltake m (pending2 s'))"
            then obtain m where "y \<in> set (ltake m (pending2 s))" using a by auto
            then show ?thesis using ascending_bound[OF Suc.prems(2)] a by blast
          qed
        qed
      next
        assume a: "pending2 s = LCons v (pending2 s') \<and> pending1 s' = pending1 s
          \<and> (\<forall>v1 r. pending1 s = LCons v1 r \<longrightarrow> v \<le> v1)"
        show ?thesis
        proof (intro allI impI)
          fix y
          assume "(\<exists>m. y \<in> set (ltake m (pending1 s'))) \<or> (\<exists>m. y \<in> set (ltake m (pending2 s')))"
          then show "v \<le> y"
          proof
            assume "\<exists>m. y \<in> set (ltake m (pending2 s'))"
            then have "\<exists>m. y \<in> set (ltake m (LCons v (pending2 s')))" by (rule ltake_later)
            then show ?thesis using ascending_head_le Suc.prems(2) a by metis
          next
            assume "\<exists>m. y \<in> set (ltake m (pending1 s'))"
            then obtain m where "y \<in> set (ltake m (pending1 s))" using a by auto
            then show ?thesis using ascending_bound[OF Suc.prems(1)] a by blast
          qed
        qed
      qed
    qed
    from asc' have "sorted (take_merged n s')" using Suc.IH by blast
    moreover have "\<forall>y\<in>set (take_merged n s'). v \<le> y"
      using take_merged_elements low by blast
    ultimately show ?thesis using step by simp
  qed
qed

lemma ltake_length_step: "length (ltake n xs) = min n (length (ltake (Suc n) xs))"
proof (induction n arbitrary: xs)
  case 0
  then show ?case by simp
next
  case (Suc n)
  show ?case
  proof (cases xs)
    case LNil
    then show ?thesis by simp
  next
    case (LCons x xs')
    have "length (ltake (Suc n) xs) = Suc (length (ltake n xs'))"
      using LCons by simp
    also have "\<dots> = Suc (min n (length (ltake (Suc n) xs')))"
      using Suc.IH[of xs'] by simp
    also have "\<dots> = min (Suc n) (length (ltake (Suc (Suc n)) xs))"
      using LCons by simp
    finally show ?thesis .
  qed
qed

lemma ltake_length_le: "length (ltake n xs) \<le> n"
  using ltake_length_step[of n xs] by simp

lemma take_merged_length:
  "length (take_merged n s) = min n (length (ltake n (pending1 s)) + length (ltake n (pending2 s)))"
proof (induction n arbitrary: s)
  case 0
  then show ?case by simp
next
  case (Suc n)
  show ?case
  proof (cases "merge_next s")
    case None
    from merge_next_None[OF this] show ?thesis using None by (simp add: ltake_LNil)
  next
    case (Some p)
    obtain v s' where p: "p = (v, s')" by (cases p)
    from Some p have step: "merge_next s = Some (v, s')" by simp
    have len: "length (take_merged (Suc n) s) = Suc (length (take_merged n s'))"
      using step by simp
    from merge_next_Some[OF step] show ?thesis
    proof
      assume a: "pending1 s = LCons v (pending1 s') \<and> pending2 s' = pending2 s
          \<and> (\<forall>v2 r. pending2 s = LCons v2 r \<longrightarrow> v \<le> v2)"
      have "length (take_merged n s') = min n (length (ltake n (pending1 s')) + length (ltake n (pending2 s)))"
        using Suc.IH[of s'] a by simp
      moreover have "length (ltake (Suc n) (pending1 s)) = Suc (length (ltake n (pending1 s')))"
        using a by simp
      moreover note ltake_length_step[of n "pending2 s"] ltake_length_le[of "Suc n" "pending2 s"]
      ultimately show ?thesis using len by (simp add: min_def split: if_splits)
    next
      assume a: "pending2 s = LCons v (pending2 s') \<and> pending1 s' = pending1 s
          \<and> (\<forall>v1 r. pending1 s = LCons v1 r \<longrightarrow> v \<le> v1)"
      have "length (take_merged n s') = min n (length (ltake n (pending1 s)) + length (ltake n (pending2 s')))"
        using Suc.IH[of s'] a by simp
      moreover have "length (ltake (Suc n) (pending2 s)) = Suc (length (ltake n (pending2 s')))"
        using a by simp
      moreover note ltake_length_step[of n "pending1 s"] ltake_length_le[of "Suc n" "pending1 s"]
      ultimately show ?thesis using len by (simp add: min_def split: if_splits)
    qed
  qed
qed

lemma iter_next_from_by: "iter_next (from_by a d) = (Some a, from_by (a + d) d)"
  by (subst from_by.code) (simp add: iter_next_def)

lemma ltake_from_by: "ltake (Suc n) (from_by a d) = a # ltake n (from_by (a + d) d)"
  by (subst from_by.code) simp

lemma from_by_lower: "0 \<le> d \<Longrightarrow> y \<in> set (ltake n (from_by a d)) \<Longrightarrow> a \<le> y"
proof (induction n arbitrary: a)
  case 0
  then show ?case by simp
next
  case (Suc n)
  from Suc.prems(2) have "y = a \<or> y \<in> set (ltake n (from_by (a + d) d))"
    by (simp add: ltake_from_by del: ltake.simps)
  then show ?case using Suc.IH[of "a + d"] Suc.prems(1) by auto
qed

lemma ascending_from_by: "0 \<le> d \<Longrightarrow> ascending (from_by a d)"
  unfolding ascending_def
proof
  fix n
  assume d: "0 \<le> d"
  show "sorted (ltake n (from_by a d))"
  proof (induction n arbitrary: a)
    case 0
    show ?case by simp
  next
    case (Suc n)
    have "\<forall>y\<in>set (ltake n (from_by (a + d) d)). a \<le> y"
      using from_by_lower[OF d] d by fastforce
    with Suc show ?case by (simp add: ltake_from_by del: ltake.simps)
  qed
qed

text \<open>
  C6.  For every pair of ascending sequences, each finite or infinite, and every \<open>n\<close>,
  consuming the first \<open>n\<close> elements of \<open>mergeSortedSequences(source1, source2)\<close> ends
  (\<open>take_merged\<close> is a total function that calls \<open>next\<close> at most \<open>n\<close> times, and each
  call does one iteration of the loop), the prefix obtained is sorted, and it has \<open>n\<close>
  elements whenever the two sources together hold that many.
\<close>

theorem mergeSortedSequences_prefix:
  assumes "ascending source1" and "ascending source2"
  shows "sorted (take_merged n (mergeSortedSequences source1 source2))
       \<and> length (take_merged n (mergeSortedSequences source1 source2))
         = min n (length (ltake n source1) + length (ltake n source2))"
  using take_merged_sorted[of "mergeSortedSequences source1 source2" n] assms
    take_merged_length[of n "mergeSortedSequences source1 source2"]
  by (simp add: pending_start)

theorem mergeSortedSequences_prefix_witness:
  "ascending (from_by 1 2) \<and> ascending (from_by 2 2)
   \<and> take_merged 10 (mergeSortedSequences (from_by 1 2) (from_by 2 2)) = [1, 2, 3, 4, 5, 6, 7, 8, 9, 10]
   \<and> sorted (take_merged 10 (mergeSortedSequences (from_by 1 2) (from_by 2 2)))
   \<and> length (take_merged 10 (mergeSortedSequences (from_by 1 2) (from_by 2 2))) = 10"
proof -
  have a1: "ascending (from_by 1 2)" and a2: "ascending (from_by 2 2)"
    by (simp_all add: ascending_from_by)
  have v: "take_merged 10 (mergeSortedSequences (from_by 1 2) (from_by 2 2)) = [1, 2, 3, 4, 5, 6, 7, 8, 9, 10]"
    by (simp add: numeral_nat mergeSortedSequences_def merge_next_def advance1_def advance2_def iter_next_from_by)
  from mergeSortedSequences_prefix[OF a1 a2, of 10] a1 a2 v show ?thesis by simp
qed

subsection \<open>Snaking puzzle\<close>

text \<open>
  Where the index is within the string, \<open>dfs\<close> satisfies the equation of the source as it
  is written, without the added branch; the calls the equation makes have \<open>index + 1\<close>,
  again within the string, since they are made past the test \<open>index = length searchStr\<close>.
\<close>

lemma dfs_source_equation:
  "index \<le> length searchStr \<Longrightarrow>
   dfs searchStr rows cols h row col index =
     (if index = length searchStr then (True, h)
      else if row < 0 \<or> row \<ge> rows \<or> col < 0 \<or> col \<ge> cols \<or> visited_at (visited h) row col
           then (False, h)
      else if char_at (puzzle h) row col \<noteq> str_at searchStr index then (False, h)
      else
        (let r = dfs_dirs searchStr rows cols (h\<lparr>visited := mark (visited h) row col True\<rparr>)
                   row col index directions
         in if fst r then (True, snd r)
            else (False, (snd r)\<lparr>visited := mark (visited (snd r)) row col False\<rparr>)))"
  by (subst dfs.simps) auto

lemma mark_restore:
  assumes "\<not> visited_at v row col"
  shows "mark (mark v row col True) row col False = v"
proof (cases "nat row < length v")
  case True
  have "(v ! nat row)[nat col := False] = v ! nat row"
    using assms list_update_id[of "v ! nat row" "nat col"] by (simp add: visited_at_def)
  with True show ?thesis by (simp add: mark_def)
next
  case False
  then have "length v \<le> nat row" by simp
  then show ?thesis by (simp add: mark_def list_update_beyond)
qed

lemma dfs_frame:
  "puzzle (snd (dfs searchStr rows cols h row col index)) = puzzle h
   \<and> (\<not> fst (dfs searchStr rows cols h row col index)
        \<longrightarrow> visited (snd (dfs searchStr rows cols h row col index)) = visited h)"
  and dfs_dirs_frame:
  "puzzle (snd (dfs_dirs searchStr rows cols h row col index ds)) = puzzle h
   \<and> (\<not> fst (dfs_dirs searchStr rows cols h row col index ds)
        \<longrightarrow> visited (snd (dfs_dirs searchStr rows cols h row col index ds)) = visited h)"
proof (induction searchStr rows cols h row col index and searchStr rows cols h row col index ds
       rule: dfs_dfs_dirs.induct)
  case (1 searchStr rows cols h row col index)
  let ?h1 = "h\<lparr>visited := mark (visited h) row col True\<rparr>"
  let ?r = "dfs_dirs searchStr rows cols ?h1 row col index directions"
  show ?case
  proof (cases "index \<noteq> length searchStr
      \<and> \<not> (row < 0 \<or> rows \<le> row \<or> col < 0 \<or> cols \<le> col \<or> visited_at (visited h) row col)
      \<and> \<not> char_at (puzzle h) row col \<noteq> str_at searchStr index
      \<and> \<not> length searchStr < index")
    case True
    then have IH: "puzzle (snd ?r) = puzzle ?h1 \<and> (\<not> fst ?r \<longrightarrow> visited (snd ?r) = visited ?h1)"
      using 1 by blast
    have unfold: "dfs searchStr rows cols h row col index =
        (if fst ?r then (True, snd ?r)
         else (False, (snd ?r)\<lparr>visited := mark (visited (snd ?r)) row col False\<rparr>))"
      using True by (subst dfs.simps) (simp add: Let_def)
    show ?thesis
    proof (cases "fst ?r")
      case found: True
      with unfold IH show ?thesis by simp
    next
      case False
      with IH have "visited (snd ?r) = mark (visited h) row col True" by simp
      moreover have "\<not> visited_at (visited h) row col" using True by simp
      ultimately show ?thesis using unfold False IH by (simp add: mark_restore)
    qed
  next
    case False
    then show ?thesis by (subst (1 2 3) dfs.simps) auto
  qed
next
  case (2 searchStr rows cols h row col index)
  show ?case by simp
next
  case (3 searchStr rows cols h row col index d ds)
  let ?r = "dfs searchStr rows cols h (row + fst d) (col + snd d) (index + 1)"
  show ?case
  proof (cases "fst ?r")
    case True
    with 3(1) show ?thesis by (simp add: Let_def)
  next
    case False
    with 3(2)[of ?r] 3(1) show ?thesis by (simp add: Let_def)
  qed
qed

lemma scan_frame:
  "puzzle (snd (scan searchStr rows cols h cells)) = puzzle h
   \<and> (\<not> fst (scan searchStr rows cols h cells)
        \<longrightarrow> visited (snd (scan searchStr rows cols h cells)) = visited h)"
proof (induction cells arbitrary: h)
  case Nil
  show ?case by simp
next
  case (Cons c cells)
  let ?r = "dfs searchStr rows cols h (fst c) (snd c) 0"
  show ?case
  proof (cases "fst ?r")
    case True
    then show ?thesis using dfs_frame[of searchStr rows cols h "fst c" "snd c" 0]
      by (simp add: Let_def)
  next
    case False
    then show ?thesis
      using dfs_frame[of searchStr rows cols h "fst c" "snd c" 0] Cons.IH[of "snd ?r"]
      by (simp add: Let_def)
  qed
qed

lemma small_dfs: "dfs (js ''ABDE'') 2 2 small_heap 0 0 0 = (False, small_heap)"
  by (simp add: dfs.simps small_heap_def js_def char_at_def str_at_def visited_at_def mark_def directions_def Let_def)

text \<open>
  C8.  The puzzle grid is never changed, by any call of \<open>dfs\<close> or by the function as a
  whole; every call of \<open>dfs\<close> that returns false leaves \<open>visited\<close> equal to what it was
  when the call was entered; and when the function returns false, \<open>visited\<close> is all false
  again.  (The statement about \<open>dfs\<close> holds from every state, in particular from those
  the function reaches.)
\<close>

theorem dfs_restores_visited:
  "puzzle (snd (dfs searchStr rows cols h row col index)) = puzzle h
   \<and> (\<not> fst (dfs searchStr rows cols h row col index)
        \<longrightarrow> visited (snd (dfs searchStr rows cols h row col index)) = visited h)
   \<and> (\<forall>found h'. findStringInSnakingPuzzle p searchStr = Inr (found, h') \<longrightarrow>
         puzzle h' = p
         \<and> (\<not> found \<longrightarrow> visited h' = replicate (length p) (replicate (length (p ! 0)) False)))"
proof -
  have "puzzle h' = p
      \<and> (\<not> found \<longrightarrow> visited h' = replicate (length p) (replicate (length (p ! 0)) False))"
    if "findStringInSnakingPuzzle p searchStr = Inr (found, h')" for found h'
  proof (cases p)
    case Nil
    with that show ?thesis by (simp add: findStringInSnakingPuzzle_def)
  next
    case (Cons row0 rest)
    let ?h = "\<lparr>puzzle = p, visited = replicate (length p) (replicate (length row0) False)\<rparr>"
    let ?r = "scan searchStr (int (length p)) (int (length row0)) ?h
                (start_cells (length p) (length row0))"
    from that Cons have "?r = (found, h')"
      by (simp add: findStringInSnakingPuzzle_def Let_def)
    then have "fst ?r = found" "snd ?r = h'" by simp_all
    with scan_frame[of searchStr "int (length p)" "int (length row0)" ?h
        "start_cells (length p) (length row0)"] Cons
    show ?thesis by auto
  qed
  with dfs_frame[of searchStr rows cols h row col index] show ?thesis by blast
qed

theorem dfs_restores_visited_witness:
  "\<not> fst (dfs (js ''ABDE'') 2 2 small_heap 0 0 0)
   \<and> visited (snd (dfs (js ''ABDE'') 2 2 small_heap 0 0 0)) = [[False, False], [False, False]]
   \<and> dfs_dirs (js ''ABDE'') 2 2 (small_heap\<lparr>visited := [[True, False], [False, False]]\<rparr>) 0 0 0 directions
       = (False, small_heap\<lparr>visited := [[True, False], [False, False]]\<rparr>)
   \<and> findStringInSnakingPuzzle [js ''AB'', js ''CD''] (js ''ABDE'') = Inr (False, small_heap)"
proof -
  have d: "dfs (js ''ABDE'') 2 2 small_heap 0 0 0 = (False, small_heap)"
    by (rule small_dfs)
  have i: "dfs_dirs (js ''ABDE'') 2 2 (small_heap\<lparr>visited := [[True, False], [False, False]]\<rparr>) 0 0 0 directions
       = (False, small_heap\<lparr>visited := [[True, False], [False, False]]\<rparr>)"
    by (simp add: dfs.simps small_heap_def js_def char_at_def str_at_def visited_at_def mark_def directions_def Let_def)
  have f: "findStringInSnakingPuzzle [js ''AB'', js ''CD''] (js ''ABDE'') = Inr (False, small_heap)"
    by (simp add: findStringInSnakingPuzzle_def start_cells_def upt_rec dfs.simps small_heap_def js_def char_at_def str_at_def visited_at_def mark_def directions_def Let_def)
  from dfs_restores_visited[of "js ''ABDE''" 2 2 small_heap 0 0 0 "[js ''AB'', js ''CD'']"] d i f
  show ?thesis by (simp add: small_heap_def)
qed

subsection \<open>URL shortener\<close>

text \<open>
  Both methods read the string as a numeral in base 84 and write the number back in
  base 84 with the same alphabet.  On a string of alphabet characters the number loses
  the leading characters of index 0 (the letter \<open>A\<close>, code 65), and nothing else.
\<close>

lemma base_84: "base = 84"
  by (simp add: base_def urlAllowedChars_def js_def)

lemma indexOf_ge: "- 1 \<le> indexOf xs x"
  by (induction xs) (auto simp: Let_def)

lemma indexOf_mem:
  "x \<in> set xs \<Longrightarrow> 0 \<le> indexOf xs x \<and> indexOf xs x < int (length xs) \<and> xs ! nat (indexOf xs x) = x"
proof (induction xs)
  case Nil
  then show ?case by simp
next
  case (Cons y ys)
  show ?case
  proof (cases "y = x")
    case True
    then show ?thesis by simp
  next
    case False
    with Cons.prems have "x \<in> set ys" by simp
    from Cons.IH[OF this] False show ?thesis
      by (simp add: Let_def nat_add_distrib)
  qed
qed

lemma indexOf_zero: "indexOf (y # ys) x = 0 \<longleftrightarrow> y = x"
  using indexOf_ge[of ys x] by (auto simp: Let_def)

lemma alphabet_head: "urlAllowedChars = 65 # tl urlAllowedChars"
  by (simp add: urlAllowedChars_def js_def)

lemma digit_of_char:
  assumes "c \<in> set urlAllowedChars"
  shows "0 \<le> indexOf urlAllowedChars c" "indexOf urlAllowedChars c < base"
    "urlAllowedChars ! nat (indexOf urlAllowedChars c) = c"
    "indexOf urlAllowedChars c = 0 \<longleftrightarrow> c = 65"
proof -
  from indexOf_mem[OF assms] show "0 \<le> indexOf urlAllowedChars c"
    "indexOf urlAllowedChars c < base" "urlAllowedChars ! nat (indexOf urlAllowedChars c) = c"
    by (simp_all add: base_def)
  show "indexOf urlAllowedChars c = 0 \<longleftrightarrow> c = 65"
    by (subst alphabet_head) (auto simp: indexOf_zero simp del: indexOf.simps)
qed

lemma to_num_snoc: "to_num (s @ [c]) = to_num s * base + indexOf urlAllowedChars c"
  by (simp add: to_num_def)

lemma to_num_zero:
  "\<forall>c\<in>set s. c \<in> set urlAllowedChars \<Longrightarrow>
   0 \<le> to_num s \<and> (to_num s = 0 \<longleftrightarrow> (\<forall>c\<in>set s. c = 65))"
proof (induction s rule: rev_induct)
  case Nil
  show ?case by (simp add: to_num_def)
next
  case (snoc c s)
  then have IH: "0 \<le> to_num s" "to_num s = 0 \<longleftrightarrow> (\<forall>c\<in>set s. c = 65)" by simp_all
  from snoc.prems have c: "c \<in> set urlAllowedChars" by simp
  note d = digit_of_char[OF c]
  have nonneg: "0 \<le> to_num s * 84 + indexOf urlAllowedChars c"
    using IH(1) d(1) by simp
  have "to_num s * 84 + indexOf urlAllowedChars c = 0
        \<longleftrightarrow> to_num s = 0 \<and> indexOf urlAllowedChars c = 0"
    using IH(1) d(1) by auto
  with nonneg IH(2) d(4) show ?case
    by (auto simp: to_num_snoc base_84)
qed

lemma render_step:
  assumes "0 \<le> n" "0 \<le> d" "d < base"
  shows "render (n * base + d) short =
         (if n = 0 \<and> d = 0 then short else render n (urlAllowedChars ! nat d # short))"
proof (cases "n = 0 \<and> d = 0")
  case True
  then show ?thesis by (subst render.simps) simp
next
  case False
  with assms have pos: "0 < n * base + d"
    by (metis add_nonneg_eq_0_iff add_nonneg_nonneg base_84 less_le mult_eq_0_iff
        mult_nonneg_nonneg zero_le_numeral zero_neq_numeral)
  have "(n * base + d) div base = n" "(n * base + d) mod base = d"
    using assms by (simp_all add: base_84)
  with pos False show ?thesis by (subst render.simps) auto
qed

lemma render_to_num:
  "\<forall>c\<in>set s. c \<in> set urlAllowedChars \<Longrightarrow>
   render (to_num s) short = dropWhile (\<lambda>c. c = 65) s @ short"
proof (induction s arbitrary: short rule: rev_induct)
  case Nil
  show ?case by (subst render.simps) (simp add: to_num_def)
next
  case (snoc c s)
  then have alph: "\<forall>c\<in>set s. c \<in> set urlAllowedChars" and c: "c \<in> set urlAllowedChars"
    by simp_all
  note d = digit_of_char[OF c]
  note z = to_num_zero[OF alph]
  have step: "render (to_num (s @ [c])) short =
      (if to_num s = 0 \<and> indexOf urlAllowedChars c = 0 then short
       else render (to_num s) (c # short))"
    using render_step[of "to_num s" "indexOf urlAllowedChars c" short] z d
    by (simp add: to_num_snoc)
  show ?case
  proof (cases "\<forall>x\<in>set s. x = 65")
    case True
    then have dw: "dropWhile (\<lambda>c. c = 65) (s @ [c]) = dropWhile (\<lambda>c. c = 65) [c]"
      by (simp add: dropWhile_append2)
    from True have ds: "dropWhile (\<lambda>c. c = 65) s = []" by simp
    from True z have tz: "to_num s = 0" by simp
    show ?thesis
    proof (cases "c = 65")
      case c65: True
      with d(4) tz step dw show ?thesis by simp
    next
      case False
      with d(4) have "indexOf urlAllowedChars c \<noteq> 0" by simp
      with step have "render (to_num (s @ [c])) short = render (to_num s) (c # short)" by simp
      also have "\<dots> = dropWhile (\<lambda>c. c = 65) s @ c # short" by (rule snoc.IH[OF alph])
      finally show ?thesis using ds dw False by simp
    qed
  next
    case False
    then obtain x where x: "x \<in> set s" "x \<noteq> 65" by blast
    then have dw: "dropWhile (\<lambda>c. c = 65) (s @ [c]) = dropWhile (\<lambda>c. c = 65) s @ [c]"
      by (simp add: dropWhile_append1)
    from False z have "to_num s \<noteq> 0" by simp
    with step have "render (to_num (s @ [c])) short = render (to_num s) (c # short)" by simp
    also have "\<dots> = dropWhile (\<lambda>c. c = 65) s @ c # short" by (rule snoc.IH[OF alph])
    finally show ?thesis using dw by simp
  qed
qed

lemma decode_strips:
  "\<forall>c\<in>set s. c \<in> set urlAllowedChars \<Longrightarrow> decode s = dropWhile (\<lambda>c. c = 65) s"
  by (simp add: decode_def render_to_num)

lemma encode_strips:
  "\<forall>c\<in>set s. c \<in> set urlAllowedChars \<Longrightarrow>
   encode s = (if dropWhile (\<lambda>c. c = 65) s = [] then [65] else dropWhile (\<lambda>c. c = 65) s)"
proof -
  assume "\<forall>c\<in>set s. c \<in> set urlAllowedChars"
  then have r: "render (to_num s) [] = dropWhile (\<lambda>c. c = 65) s"
    by (simp add: render_to_num)
  have "urlAllowedChars ! 0 = 65" by (subst alphabet_head) simp
  with r show ?thesis by (simp add: encode_def Let_def)
qed

lemma decode_encode_strips:
  assumes "\<forall>c\<in>set s. c \<in> set urlAllowedChars"
  shows "decode (encode s) = dropWhile (\<lambda>c. c = 65) s"
proof -
  have a: "65 \<in> set urlAllowedChars" by (subst alphabet_head) simp
  have sub: "set (dropWhile (\<lambda>c. c = 65) s) \<subseteq> set s" by (rule set_dropWhileD[THEN subsetI])
  have "\<forall>c\<in>set (encode s). c \<in> set urlAllowedChars"
    using assms a sub by (auto simp: encode_strips)
  then have "decode (encode s) = dropWhile (\<lambda>c. c = 65) (encode s)" by (rule decode_strips)
  also have "\<dots> = dropWhile (\<lambda>c. c = 65) s"
  proof (cases "dropWhile (\<lambda>c. c = 65) s = []")
    case True
    then show ?thesis by (simp only: encode_strips[OF assms] if_True) simp
  next
    case False
    then show ?thesis by (simp only: encode_strips[OF assms] if_False dropWhile_idem)
  qed
  finally show ?thesis .
qed

lemma decode_encode_roundtrip:
  assumes "\<forall>c\<in>set s. c \<in> set urlAllowedChars"
  shows "decode (encode s) = s \<longleftrightarrow> s = [] \<or> hd s \<noteq> 65"
  using decode_encode_strips[OF assms] by (simp add: dropWhile_eq_self_iff)

text \<open>
  C1.  The claim: \<open>decode(encode(s))\<close> equals \<open>s\<close> for every string \<open>s\<close> of alphabet
  characters.  The code: on \<open>AB\<close>, a string of alphabet characters, \<open>encode\<close> returns \<open>B\<close>
  and \<open>decode\<close> of that is \<open>B\<close>.  (The alphabet has 84 characters.)
\<close>

theorem decode_encode_leading_A:
  "set (js ''AB'') \<subseteq> set urlAllowedChars \<and> length urlAllowedChars = 84
   \<and> encode (js ''AB'') = js ''B'' \<and> decode (encode (js ''AB'')) = js ''B''
   \<and> decode (encode (js ''AB'')) \<noteq> js ''AB''"
proof -
  have a: "\<forall>c\<in>set (js ''AB''). c \<in> set urlAllowedChars"
    by (simp add: js_def urlAllowedChars_def)
  have l: "length urlAllowedChars = 84"
    by (simp add: js_def urlAllowedChars_def)
  from encode_strips[OF a] decode_encode_strips[OF a] a l show ?thesis
    by (simp add: js_def)
qed

subsection \<open>Bank account digits\<close>

text \<open>
  C9 as stated: the pattern of digit 3 is identical to the pattern of digit 9.  The two
  entries of the table differ.
\<close>

theorem digitPatterns_3_9_differ: "digitPatterns ! 3 \<noteq> digitPatterns ! 9"
  by (simp add: digitPatterns_def js_def)

text \<open>
  C9 as amended: the pattern of digit 5 is identical to the pattern of digit 9, the entries
  for \<open>0 .. 8\<close> are pairwise distinct (so this is the only repetition), and the
  \<open>indexOf\<close> lookup of that glyph returns \<open>5\<close>, never \<open>9\<close>.
\<close>

theorem digitPatterns_5_9_equal:
  "digitPatterns ! 5 = digitPatterns ! 9 \<and> distinct (take 9 digitPatterns)
   \<and> length digitPatterns = 10 \<and> indexOf digitPatterns (digitPatterns ! 9) = 5"
  by (simp add: digitPatterns_def js_def)

end
